theory Spec2Isabelle
  imports Complex_Main
begin

section \<open>Data model\<close>

text \<open>
  The writhe matrix is a square array of floating point numbers; it is modelled as a list
  of rows over the reals (sums and comparisons are exact). Matrix indices, and the
  entries of the branch arrays, which hold integral values, are integers.
  A branch is the array \<open>[x1, x2, y1, y2]\<close>; the two halves \<open>[0:2]\<close> and \<open>[2:4]\<close> of it,
  which the overlap resolver passes around, are pairs (lower bound, upper bound).
\<close>

type_synonym matrix = "real list list"

type_synonym lim = "int \<times> int"

record branch =
  X1 :: int
  X2 :: int
  Y1 :: int
  Y2 :: int

definition xlim :: "branch \<Rightarrow> lim" where
  "xlim b = (X1 b, X2 b)"

definition ylim :: "branch \<Rightarrow> lim" where
  "ylim b = (Y1 b, Y2 b)"

definition mk_branch :: "lim \<Rightarrow> lim \<Rightarrow> branch" where
  "mk_branch xl yl = \<lparr>X1 = fst xl, X2 = snd xl, Y1 = fst yl, Y2 = snd yl\<rparr>"

subsection \<open>Slices and block sums\<close>

text \<open>
  A slice bound of Python: a negative bound counts from the end, and every bound is
  clipped to the length.
\<close>

definition slice_idx :: "nat \<Rightarrow> int \<Rightarrow> nat" where
  "slice_idx n k = (if k < 0 then nat (max 0 (k + int n)) else min n (nat k))"

definition py_slice :: "int \<Rightarrow> int \<Rightarrow> 'a list \<Rightarrow> 'a list" where
  "py_slice lo hi xs =
     (let s = slice_idx (length xs) lo; e = slice_idx (length xs) hi
      in take (e - s) (drop s xs))"

definition py_slice_from :: "int \<Rightarrow> 'a list \<Rightarrow> 'a list" where
  "py_slice_from lo xs = drop (slice_idx (length xs) lo) xs"

text \<open>\<open>np.sum(WM[r0:r1, c0:c1])\<close>\<close>

definition block_sum :: "matrix \<Rightarrow> int \<Rightarrow> int \<Rightarrow> int \<Rightarrow> int \<Rightarrow> real" where
  "block_sum WM r0 r1 c0 c1 =
     sum_list (map (\<lambda>row. sum_list (py_slice c0 c1 row)) (py_slice r0 r1 WM))"

text \<open>\<open>np.sum(WM[r0:, c0:c1])\<close>\<close>

definition block_sum_from :: "matrix \<Rightarrow> int \<Rightarrow> int \<Rightarrow> int \<Rightarrow> real" where
  "block_sum_from WM r0 c0 c1 =
     sum_list (map (\<lambda>row. sum_list (py_slice c0 c1 row)) (py_slice_from r0 WM))"

definition cal_branch_writhe :: "matrix \<Rightarrow> int \<Rightarrow> int \<Rightarrow> int \<Rightarrow> int \<Rightarrow> real" where
  "cal_branch_writhe WM x1 x2 y1 y2 = block_sum WM x1 (x2 + 1) y1 (y2 + 1)"

definition branch_writhe :: "matrix \<Rightarrow> branch \<Rightarrow> real" where
  "branch_writhe WM b = cal_branch_writhe WM (X1 b) (X2 b) (Y1 b) (Y2 b)"

definition minint :: "int \<Rightarrow> int \<Rightarrow> int" where
  "minint a b = (if a < b then a else b)"

definition maxint :: "int \<Rightarrow> int \<Rightarrow> int" where
  "maxint a b = (if a > b then a else b)"

definition is_downstream :: "int \<Rightarrow> int \<Rightarrow> int \<Rightarrow> int \<Rightarrow> bool" where
  "is_downstream a1 a2 b1 b2 \<longleftrightarrow> (a1 \<le> b1 \<and> b1 \<le> a2) \<and> (a1 \<le> b2 \<and> b2 \<le> a2)"

section \<open>Overlap resolver\<close>

text \<open>
  The four \<open>if\<close> statements of \<open>_remove_branchpair_overlap\<close> run one after the other
  on three local variables: which of the two branches is \<open>a\<close> (unbound at first:
  \<open>None\<close>; \<open>Some False\<close> is the first branch, \<open>Some True\<close> the second), \<open>rev\<close> and
  \<open>scenario\<close>. Cases 1 and 3 leave \<open>rev\<close> as it is.
\<close>

definition select_case :: "lim \<Rightarrow> lim \<Rightarrow> bool option \<times> bool \<times> nat" where
  "select_case lim1 lim2 =
     (let s0 = (None, False, 0);
          s1 = (if fst lim1 \<le> snd lim2 \<and> snd lim2 \<le> snd lim1 \<and> fst lim2 \<le> fst lim1
                then (Some False, fst (snd s0), 1) else s0);
          s2 = (if fst lim2 \<le> snd lim1 \<and> snd lim1 \<le> snd lim2 \<and> fst lim1 \<le> fst lim2
                then (Some True, True, 1) else s1);
          s3 = (if snd lim2 < snd lim1 \<and> fst lim2 > fst lim1
                then (Some False, fst (snd s2), 2) else s2);
          s4 = (if snd lim1 < snd lim2 \<and> fst lim1 > fst lim2
                then (Some True, True, 2) else s3)
      in s4)"

text \<open>
  The comparison and the truncation, once \<open>a\<close> and \<open>b\<close> are bound. The result is
  (\<open>ylima\<close>, \<open>ylimb\<close>) after the assignment.
\<close>

definition truncate_pair :: "matrix \<Rightarrow> nat \<Rightarrow> lim \<Rightarrow> lim \<Rightarrow> lim \<Rightarrow> lim \<Rightarrow> lim \<times> lim" where
  "truncate_pair WM scenario xlima ylima xlimb ylimb =
     (if scenario = 1 then
        (let a = fst ylima; b = snd ylimb;
             wra = block_sum WM (fst xlima) (snd xlima + 1) a (b + 1);
             wrb = block_sum WM (fst xlimb) (snd xlimb + 1) a (b + 1)
         in if wra \<ge> wrb then (ylima, (fst ylimb, a - 1))
            else ((b + 1, snd ylima), ylimb))
      else
        (let wra = block_sum WM (fst xlima) (snd xlima + 1) (fst ylima) (snd ylima + 1);
             wrb = block_sum WM (fst xlimb) (snd xlimb + 1) (fst ylimb) (snd ylimb + 1)
         in if wra \<ge> wrb then (ylima, (fst ylimb, fst ylimb - 1))
            else ((fst ylima, fst ylima - 1), ylimb)))"

text \<open>
  \<open>_remove_branchpair_overlap\<close>. With no case selected the source reads the unbound
  \<open>xlima\<close> and raises; that is \<open>None\<close>.
\<close>

definition remove_branchpair_overlap ::
    "matrix \<Rightarrow> lim \<Rightarrow> lim \<Rightarrow> lim \<Rightarrow> lim \<Rightarrow> (lim \<times> lim) option" where
  "remove_branchpair_overlap WM xlim1 xlim2 ylim1 ylim2 =
     (if snd ylim1 < fst ylim2 \<or> snd ylim2 < fst ylim1 then Some (ylim1, ylim2)
      else
        (case select_case ylim1 ylim2 of
           (None, rv, scenario) \<Rightarrow> None
         | (Some second, rv, scenario) \<Rightarrow>
             (let (ylima, ylimb) =
                    (if second then truncate_pair WM scenario xlim2 ylim2 xlim1 ylim1
                     else truncate_pair WM scenario xlim1 ylim1 xlim2 ylim2)
              in Some (if rv then (ylimb, ylima) else (ylima, ylimb)))))"

text \<open>The four calls made for one pair of branches (first \<open>i\<close>, then \<open>j\<close>).\<close>

definition resolve_pair :: "matrix \<Rightarrow> branch \<Rightarrow> branch \<Rightarrow> (branch \<times> branch) option" where
  "resolve_pair WM bi bj =
     (case remove_branchpair_overlap WM (xlim bi) (xlim bj) (ylim bi) (ylim bj) of
        None \<Rightarrow> None
      | Some (ylim1, ylim2) \<Rightarrow>
     (case remove_branchpair_overlap WM ylim1 (xlim bj) (xlim bi) ylim2 of
        None \<Rightarrow> None
      | Some (xlim1, ylim2) \<Rightarrow>
     (case remove_branchpair_overlap WM xlim1 ylim2 ylim1 (xlim bj) of
        None \<Rightarrow> None
      | Some (ylim1, xlim2) \<Rightarrow>
     (case remove_branchpair_overlap WM ylim1 ylim2 xlim1 xlim2 of
        None \<Rightarrow> None
      | Some (xlim1, xlim2) \<Rightarrow> Some (mk_branch xlim1 ylim1, mk_branch xlim2 ylim2)))))"

text \<open>The loop over \<open>j\<close>, for a fixed \<open>i\<close>, on the indices still to visit.\<close>

fun overlap_inner :: "matrix \<Rightarrow> nat \<Rightarrow> nat list \<Rightarrow> branch list \<Rightarrow> branch list option" where
  "overlap_inner WM i [] bs = Some bs"
| "overlap_inner WM i (j # js) bs =
     (if Y2 (bs ! j) < Y1 (bs ! j) then overlap_inner WM i js bs
      else
        (case resolve_pair WM (bs ! i) (bs ! j) of
           None \<Rightarrow> None
         | Some (bi, bj) \<Rightarrow> overlap_inner WM i js (bs[i := bi, j := bj])))"

text \<open>The loop over \<open>i\<close>.\<close>

fun overlap_outer :: "matrix \<Rightarrow> nat list \<Rightarrow> branch list \<Rightarrow> branch list option" where
  "overlap_outer WM [] bs = Some bs"
| "overlap_outer WM (i # is) bs =
     (if Y2 (bs ! i) < Y1 (bs ! i) then overlap_outer WM is bs
      else
        (case overlap_inner WM i [Suc i ..< length bs] bs of
           None \<Rightarrow> None
         | Some bs' \<Rightarrow> overlap_outer WM is bs'))"

text \<open>The last loop writes the sentinel into every degenerate branch.\<close>

definition flag_branch :: "branch \<Rightarrow> branch" where
  "flag_branch b = (if Y1 b > Y2 b \<or> X1 b > X2 b then b\<lparr>X1 := - 1\<rparr> else b)"

definition remove_branch_overlap :: "matrix \<Rightarrow> branch list \<Rightarrow> branch list option" where
  "remove_branch_overlap WM branches =
     (case overlap_outer WM [0 ..< length branches - 1] branches of
        None \<Rightarrow> None
      | Some bs \<Rightarrow> Some (map flag_branch bs))"

section \<open>Flagged branches\<close>

text \<open>
  \<open>_remove_flagged_branches\<close> walks both lists by the index of \<open>branches\<close>; its callers
  pass lists of one length.
\<close>

definition remove_flagged_branches ::
    "branch list \<Rightarrow> 't list \<Rightarrow> branch list \<times> 't list" where
  "remove_flagged_branches branches tracers =
     (let kept = filter (\<lambda>(b, t). X1 b \<noteq> - 1) (zip branches tracers)
      in (map fst kept, map snd kept))"

section \<open>Pair detector\<close>

text \<open>A row of the array \<open>pairs\<close>: \<open>[i, j, summed, WM[i, j] * 2, flag]\<close>.\<close>

record pair =
  p_x :: int
  p_y :: int
  rowsum :: real
  weight :: real
  flag :: int

text \<open>\<open>len(pair)\<close>, the number of entries of such a row.\<close>

definition pair_len :: "pair \<Rightarrow> nat" where
  "pair_len p = 5"

text \<open>
  \<open>np.argmax\<close>: the first position of the largest entry; on an empty array it raises
  (\<open>None\<close>).
\<close>

fun argmax_aux :: "real list \<Rightarrow> nat \<Rightarrow> nat \<Rightarrow> real \<Rightarrow> nat" where
  "argmax_aux [] k best v = best"
| "argmax_aux (x # xs) k best v =
     (if x > v then argmax_aux xs (Suc k) k x else argmax_aux xs (Suc k) best v)"

definition argmax :: "real list \<Rightarrow> nat option" where
  "argmax xs = (case xs of [] \<Rightarrow> None | x # rest \<Rightarrow> Some (argmax_aux rest 1 0 x))"

definition row_pair :: "real \<Rightarrow> nat \<Rightarrow> real list \<Rightarrow> pair option" where
  "row_pair minwr_per_seg i row =
     (case argmax row of
        None \<Rightarrow> None
      | Some j \<Rightarrow>
          Some \<lparr>p_x = int i, p_y = int j, rowsum = sum_list row, weight = row ! j * 2,
                flag = (if sum_list row > minwr_per_seg then 1 else 0)\<rparr>)"

fun all_pairs :: "real \<Rightarrow> nat \<Rightarrow> matrix \<Rightarrow> pair list option" where
  "all_pairs minwr_per_seg i [] = Some []"
| "all_pairs minwr_per_seg i (row # rows) =
     (case row_pair minwr_per_seg i row of
        None \<Rightarrow> None
      | Some p \<Rightarrow>
          (case all_pairs minwr_per_seg (Suc i) rows of
             None \<Rightarrow> None
           | Some ps \<Rightarrow> Some (p # ps)))"

definition mirror :: "pair \<Rightarrow> pair" where
  "mirror p = (if p_y p < p_x p then p\<lparr>p_x := p_y p, p_y := p_x p\<rparr> else p)"

text \<open>
  \<open>_find_pairs\<close>. The sort by the first entry keeps rows with the same first entry in
  the order of the filter.
\<close>

definition find_pairs :: "matrix \<Rightarrow> real \<Rightarrow> pair list option" where
  "find_pairs WM minwr_per_seg =
     (case all_pairs minwr_per_seg 0 WM of
        None \<Rightarrow> None
      | Some pairs \<Rightarrow>
          Some (sort_key p_x (map mirror (filter (\<lambda>p. flag p \<noteq> 0) pairs))))"

section \<open>Tracer builder and branch classifier\<close>

record tracer_state =
  tracers :: "pair list list"
  tracer_xlims :: "lim list"
  tracer_ylims :: "lim list"

text \<open>
  The loop over the open tracers for one pair; the state is
  (\<open>largest_match_id\<close>, \<open>largest_match_len\<close>). A match stores \<open>len(tracer[0])\<close>, the
  length of the tracer's first pair, as the length to beat.
\<close>

fun match_loop :: "int \<Rightarrow> tracer_state \<Rightarrow> pair \<Rightarrow> nat list \<Rightarrow> int \<times> nat \<Rightarrow> int \<times> nat" where
  "match_loop connect_segs ts p [] m = m"
| "match_loop connect_segs ts p (i # is) (largest_match_id, largest_match_len) =
     (let tracer = tracers ts ! i; txlim = tracer_xlims ts ! i; tylim = tracer_ylims ts ! i;
          xdisp = p_x p - snd txlim
      in if xdisp > connect_segs
         then match_loop connect_segs ts p is (largest_match_id, largest_match_len)
         else if \<not> (\<bar>fst tylim - p_y p\<bar> \<le> connect_segs
                     \<or> \<bar>p_y p - snd tylim\<bar> \<le> connect_segs
                     \<or> (fst tylim \<le> p_y p \<and> p_y p \<le> snd tylim))
         then match_loop connect_segs ts p is (largest_match_id, largest_match_len)
         else if length tracer > largest_match_len
         then match_loop connect_segs ts p is (int i, pair_len (hd tracer))
         else match_loop connect_segs ts p is (largest_match_id, largest_match_len))"

definition add_pair :: "int \<Rightarrow> tracer_state \<Rightarrow> pair \<Rightarrow> tracer_state" where
  "add_pair connect_segs ts p =
     (let (largest_match_id, largest_match_len) =
            match_loop connect_segs ts p [0 ..< length (tracers ts)] (- 1, 0)
      in if largest_match_len = 0
         then \<lparr>tracers = tracers ts @ [[p]],
               tracer_xlims = tracer_xlims ts @ [(p_x p, p_x p)],
               tracer_ylims = tracer_ylims ts @ [(p_y p, p_y p)]\<rparr>
         else
           (let k = nat largest_match_id;
                xl = (fst (tracer_xlims ts ! k), p_x p);
                yl = tracer_ylims ts ! k;
                yl1 = (if p_y p > snd yl then (fst yl, p_y p) else yl);
                yl2 = (if p_y p < fst yl1 then (p_y p, snd yl1) else yl1)
            in \<lparr>tracers = (tracers ts)[k := tracers ts ! k @ [p]],
                 tracer_xlims = (tracer_xlims ts)[k := xl],
                 tracer_ylims = (tracer_ylims ts)[k := yl2]\<rparr>))"

definition build_tracers :: "int \<Rightarrow> pair list \<Rightarrow> tracer_state" where
  "build_tracers connect_segs pairs =
     foldl (add_pair connect_segs) \<lparr>tracers = [], tracer_xlims = [], tracer_ylims = []\<rparr> pairs"

subsection \<open>Tracer band\<close>

text \<open>
  The second column of \<open>tracerband\<close> at row \<open>j\<close>, before interpolation: the partner of
  the pair with the largest fourth entry among the pairs of the tracer at \<open>x = j + xlim[0]\<close>,
  and \<open>-1\<close> in a gap that is not at an end.
\<close>

definition band_value :: "pair list \<Rightarrow> lim \<Rightarrow> lim \<Rightarrow> nat \<Rightarrow> real" where
  "band_value tracer xl yl j =
     (let jelems = filter (\<lambda>p. p_x p = int j + fst xl) tracer;
          Nelem = nat (snd xl - fst xl)
      in case argmax (map weight jelems) of
           None \<Rightarrow> (if j = 0 then real_of_int (snd yl)
                     else if j = Nelem then real_of_int (fst yl) else - 1)
         | Some k \<Rightarrow> real_of_int (p_y (jelems ! k)))"

text \<open>The linear interpolation between two set rows \<open>s1 < s2\<close>.\<close>

definition fill_gap :: "nat \<Rightarrow> nat \<Rightarrow> real list \<Rightarrow> real list" where
  "fill_gap s1 s2 band =
     (let num = s2 - s1; v1 = band ! s1; v2 = band ! s2; dv = (v2 - v1) / real num
      in fold (\<lambda>ip bd. bd[s1 + ip := v1 + real ip * dv]) [1 ..< num] band)"

fun interpolate :: "nat list \<Rightarrow> real list \<Rightarrow> real list" where
  "interpolate (s1 # s2 # setvals) band =
     interpolate (s2 # setvals) (if s2 > s1 + 1 then fill_gap s1 s2 band else band)"
| "interpolate setvals band = band"

definition tracer_band :: "pair list \<Rightarrow> lim \<Rightarrow> lim \<Rightarrow> (int \<times> real) list" where
  "tracer_band tracer xl yl =
     (let Nelem = nat (snd xl - fst xl);
          band = map (band_value tracer xl yl) [0 ..< Nelem + 1];
          setvals = filter (\<lambda>j. band ! j \<noteq> - 1) [0 ..< Nelem + 1]
      in zip (map (\<lambda>j. fst xl + int j) [0 ..< Nelem + 1]) (interpolate setvals band))"

subsection \<open>Thresholds\<close>

text \<open>
  \<open>wr2dens_conv_fac = 2 * np.pi / om0\<close> and
  \<open>minwr_per_seg = disc_len * (min_writhe_density / wr2dens_conv_fac)\<close>. The first division
  raises for \<open>om0 = 0\<close>; the functions below return \<open>None\<close> there.
\<close>

definition wr2dens_conv_fac :: "real \<Rightarrow> real" where
  "wr2dens_conv_fac om0 = 2 * pi / om0"

definition minwr_per_seg_of :: "real \<Rightarrow> real \<Rightarrow> real \<Rightarrow> real" where
  "minwr_per_seg_of min_writhe_density disc_len om0 =
     disc_len * (min_writhe_density / wr2dens_conv_fac om0)"

subsection \<open>Promotion of tracers to branches\<close>

text \<open>The second loop of \<open>_find_branches\<close>, over the tracers by index.\<close>

definition tracer_wrdens :: "matrix \<Rightarrow> real \<Rightarrow> real \<Rightarrow> lim \<Rightarrow> lim \<Rightarrow> real" where
  "tracer_wrdens WM disc_len om0 xl yl =
     (let wr = block_sum WM (fst xl) (snd xl + 1) (fst yl) (snd yl + 1) * 2;
          l_plec = real_of_int (maxint (snd xl - fst xl + 1) (snd yl - fst yl + 1)) * disc_len
      in wr2dens_conv_fac om0 * wr / l_plec)"

fun promote :: "matrix \<Rightarrow> real \<Rightarrow> real \<Rightarrow> real \<Rightarrow> tracer_state \<Rightarrow> nat list
    \<Rightarrow> branch list \<times> (int \<times> real) list list" where
  "promote WM min_writhe_density disc_len om0 ts [] = ([], [])"
| "promote WM min_writhe_density disc_len om0 ts (i # is) =
     (let xl = tracer_xlims ts ! i; yl = tracer_ylims ts ! i;
          (branches, branchtracers) = promote WM min_writhe_density disc_len om0 ts is
      in if tracer_wrdens WM disc_len om0 xl yl < min_writhe_density
         then (branches, branchtracers)
         else (mk_branch xl yl # branches, tracer_band (tracers ts ! i) xl yl # branchtracers))"

text \<open>
  \<open>_find_branches\<close>. \<open>connect_dist / disc_len\<close> raises for \<open>disc_len = 0\<close>.
\<close>

definition find_branches :: "matrix \<Rightarrow> real \<Rightarrow> real \<Rightarrow> real \<Rightarrow> real
    \<Rightarrow> (branch list \<times> (int \<times> real) list list) option" where
  "find_branches WM min_writhe_density disc_len connect_dist om0 =
     (if disc_len = 0 \<or> om0 = 0 then None
      else
        (let connect_segs = \<lceil>connect_dist / disc_len\<rceil>;
             minwr_per_seg = minwr_per_seg_of min_writhe_density disc_len om0
         in case find_pairs WM minwr_per_seg of
              None \<Rightarrow> None
            | Some pairs \<Rightarrow>
                (let ts = build_tracers connect_segs pairs
                 in Some (promote WM min_writhe_density disc_len om0 ts
                            [0 ..< length (tracers ts)]))))"

section \<open>Conflict resolver\<close>

text \<open>
  \<open>_resolve_inconsistent_branches\<close>. Its first loop fills \<open>downstream_counts\<close>, a list
  that is never read, and changes nothing; it is left out. The scan over \<open>j < i\<close>
  accumulates (\<open>conflict_wr\<close>, \<open>conflict_ids\<close>); the bounds of a branch are its
  entries \<open>[0]\<close> and \<open>[3]\<close>, that is \<open>x1\<close> and \<open>y2\<close>.
\<close>

definition set_flag :: "branch \<Rightarrow> branch" where
  "set_flag b = b\<lparr>X1 := - 1\<rparr>"

fun conflict_scan :: "matrix \<Rightarrow> branch list \<Rightarrow> int \<Rightarrow> int \<Rightarrow> nat list
    \<Rightarrow> real \<times> nat list \<Rightarrow> real \<times> nat list" where
  "conflict_scan WM bs a1 a2 [] acc = acc"
| "conflict_scan WM bs a1 a2 (j # js) (conflict_wr, conflict_ids) =
     (if X1 (bs ! j) = - 1 then conflict_scan WM bs a1 a2 js (conflict_wr, conflict_ids)
      else
        (let b1 = X1 (bs ! j); b2 = Y2 (bs ! j)
         in if (b1 < a1 \<and> a1 < b2) \<and> \<not> is_downstream b1 b2 a1 a2
            then conflict_scan WM bs a1 a2 js
                   (conflict_wr + branch_writhe WM (bs ! j), conflict_ids @ [j])
            else conflict_scan WM bs a1 a2 js (conflict_wr, conflict_ids)))"

definition resolve_step :: "matrix \<Rightarrow> nat \<Rightarrow> branch list \<Rightarrow> branch list" where
  "resolve_step WM i bs =
     (let a1 = X1 (bs ! i); a2 = Y2 (bs ! i);
          (conflict_wr, conflict_ids) = conflict_scan WM bs a1 a2 [0 ..< i] (0, [])
      in if conflict_wr > 0 then
           (let ref_wr = branch_writhe WM (bs ! i)
            in if ref_wr > conflict_wr
               then fold (\<lambda>cid bs'. bs'[cid := set_flag (bs' ! cid)]) conflict_ids bs
               else bs[i := set_flag (bs ! i)])
         else bs)"

definition resolve_inconsistent_branches :: "matrix \<Rightarrow> branch list \<Rightarrow> branch list" where
  "resolve_inconsistent_branches WM branches =
     fold (resolve_step WM) [1 ..< length branches] branches"

section \<open>Branch combiner\<close>

text \<open>
  \<open>wr / num_segs\<close> divides a numpy float by an integer. A zero divisor raises nothing:
  numpy signals a floating-point error, which it reports as a \<open>RuntimeWarning\<close>
  (\<open>divide by zero\<close> for a numerator other than zero, \<open>invalid value\<close> for \<open>0 / 0\<close>), and
  the quotient is \<open>inf\<close>, \<open>-inf\<close> or \<open>nan\<close>. Of these only \<open>inf\<close> is greater than a
  threshold.
\<close>

datatype npfloat = Finite real | Pos_inf | Neg_inf | Not_a_number

datatype fp_error = Divide_by_zero | Invalid_value

definition np_divide :: "real \<Rightarrow> int \<Rightarrow> npfloat \<times> fp_error list" where
  "np_divide wr n =
     (if n \<noteq> 0 then (Finite (wr / real_of_int n), [])
      else if wr > 0 then (Pos_inf, [Divide_by_zero])
      else if wr < 0 then (Neg_inf, [Divide_by_zero])
      else (Not_a_number, [Invalid_value]))"

fun np_greater :: "npfloat \<Rightarrow> real \<Rightarrow> bool" where
  "np_greater (Finite q) m = (q > m)"
| "np_greater Pos_inf m = True"
| "np_greater Neg_inf m = False"
| "np_greater Not_a_number m = False"

text \<open>
  \<open>_can_connect_downstream_branches\<close>: what it returns, and the floating-point errors
  that the division in it signals.
\<close>

definition can_connect_downstream_branches ::
    "int \<Rightarrow> int \<Rightarrow> int \<Rightarrow> int \<Rightarrow> matrix \<Rightarrow> real \<Rightarrow> bool \<times> fp_error list" where
  "can_connect_downstream_branches a1 a2 b1 b2 WM minwr_per_seg =
     (if \<not> is_downstream a1 a2 b1 b2 then (False, [])
      else
        (let wr = 0 + block_sum WM a1 b1 (b2 + 1) (a2 + 1)
                    + block_sum WM a1 b1 0 (b2 + 1)
                    + block_sum_from WM b1 (b2 + 1) (a2 + 1);
             num_segs = maxint (b1 - a1) (a2 - b2);
             (wr_per_seg, signalled) = np_divide wr num_segs
         in (np_greater wr_per_seg minwr_per_seg, signalled)))"

text \<open>
  The state of \<open>_combine_branches\<close>: the composites, the ids they contain and the calls
  of \<open>_can_connect_downstream_branches\<close> made so far, each with its arguments
  \<open>(a1, a2, b1, b2)\<close> and with what the call gave back.
\<close>

record combine_state =
  combbranch :: "branch list"
  contained_branch_ids :: "nat list list"
  connect_calls :: "((int \<times> int \<times> int \<times> int) \<times> bool \<times> fp_error list) list"

text \<open>
  The loop over the composites for branch \<open>i\<close>; the result says whether \<open>new_plec\<close> is
  still true. \<open>plec[X2] = ...\<close> writes into the stored composite; \<open>plec = branches[i]\<close>
  binds the local name and leaves the stored composite as it is.
\<close>

fun combine_scan :: "matrix \<Rightarrow> real \<Rightarrow> branch \<Rightarrow> nat \<Rightarrow> nat list \<Rightarrow> combine_state
    \<Rightarrow> bool \<times> combine_state" where
  "combine_scan WM minwr_per_seg bi i [] st = (True, st)"
| "combine_scan WM minwr_per_seg bi i (j # js) st =
     (let plec = combbranch st ! j; p1 = X1 bi; p2 = Y2 bi;
          a1 = X1 plec; a2 = Y2 plec; b1 = X2 plec; b2 = Y1 plec
      in if is_downstream a1 a2 p1 p2 then
           (let st1 = st\<lparr>contained_branch_ids :=
                          (contained_branch_ids st)[j := contained_branch_ids st ! j @ [i]]\<rparr>;
                merged = plec\<lparr>X2 := maxint (X2 plec) (X2 bi), Y1 := minint (Y1 plec) (Y1 bi)\<rparr>
            in if is_downstream b1 b2 p1 p2 then
                 (let call = can_connect_downstream_branches a1 a2 p1 p2 WM minwr_per_seg;
                      st2 = st1\<lparr>connect_calls := connect_calls st1 @ [((a1, a2, p1, p2), call)]\<rparr>
                  in if fst call
                     then (False, st2\<lparr>combbranch := (combbranch st2)[j := merged]\<rparr>)
                     else
                       (let plec_local =
                              (if branch_writhe WM bi > branch_writhe WM plec then bi else plec)
                        in (False, st2)))
               else (False, st1\<lparr>combbranch := (combbranch st1)[j := merged]\<rparr>))
         else combine_scan WM minwr_per_seg bi i js st)"

definition combine_step :: "matrix \<Rightarrow> real \<Rightarrow> branch list \<Rightarrow> combine_state \<Rightarrow> nat
    \<Rightarrow> combine_state" where
  "combine_step WM minwr_per_seg branches st i =
     (let (new_plec, st') =
            combine_scan WM minwr_per_seg (branches ! i) i [0 ..< length (combbranch st)] st
      in if new_plec
         then st'\<lparr>combbranch := combbranch st' @ [branches ! i],
                  contained_branch_ids := contained_branch_ids st' @ [[i]]\<rparr>
         else st')"

definition combine_run :: "matrix \<Rightarrow> real \<Rightarrow> branch list \<Rightarrow> combine_state" where
  "combine_run WM minwr_per_seg branches =
     foldl (combine_step WM minwr_per_seg branches)
       \<lparr>combbranch = [], contained_branch_ids = [], connect_calls = []\<rparr>
       [0 ..< length branches]"

text \<open>\<open>_combine_branches\<close>\<close>

definition combine_branches :: "matrix \<Rightarrow> branch list \<Rightarrow> real \<Rightarrow> real \<Rightarrow> real
    \<Rightarrow> (branch list \<times> nat list list) option" where
  "combine_branches WM branches min_writhe_density disc_len om0 =
     (if om0 = 0 then None
      else
        (let st = combine_run WM (minwr_per_seg_of min_writhe_density disc_len om0) branches
         in Some (combbranch st, contained_branch_ids st)))"

section \<open>Plectoneme definer\<close>

text \<open>The array \<open>[id1, id2, wrdens, wr, num_segs, wr_tot, i]\<close>.\<close>

record plec =
  id1 :: int
  id2 :: int
  wrdens :: real
  wr :: real
  num_segs :: int
  wr_tot :: real
  cand_id :: nat

definition candidate_plec :: "branch \<Rightarrow> branch" where
  "candidate_plec cb = \<lparr>X1 = X1 cb, X2 = Y2 cb, Y1 = X1 cb, Y2 = Y2 cb\<rparr>"

definition total_writhe :: "matrix \<Rightarrow> real" where
  "total_writhe WM = sum_list (map sum_list WM)"

text \<open>The loop over the candidates, with their indices.\<close>

fun plec_loop :: "matrix \<Rightarrow> real \<Rightarrow> real \<Rightarrow> real \<Rightarrow> real \<Rightarrow> (nat \<times> branch) list \<Rightarrow> plec list" where
  "plec_loop WM min_writhe_density min_writhe disc_len om0 [] = []"
| "plec_loop WM min_writhe_density min_writhe disc_len om0 ((i, c) # rest) =
     (let w = branch_writhe WM c;
          nsegs = X2 c - X1 c + 1;
          l_plec = real_of_int nsegs * disc_len;
          plecs = plec_loop WM min_writhe_density min_writhe disc_len om0 rest
      in if l_plec \<le> 0 then plecs
         else
           (let dens = wr2dens_conv_fac om0 * w / l_plec
            in if dens \<ge> min_writhe_density \<and> w \<ge> min_writhe
               then \<lparr>id1 = X1 c, id2 = X2 c, wrdens = dens, wr = w, num_segs = nsegs,
                     wr_tot = total_writhe WM, cand_id = i\<rparr> # plecs
               else plecs))"

text \<open>\<open>_define_plecs\<close>\<close>

definition define_plecs :: "matrix \<Rightarrow> branch list \<Rightarrow> real \<Rightarrow> real \<Rightarrow> real \<Rightarrow> real
    \<Rightarrow> plec list option" where
  "define_plecs WM combbranches min_writhe_density min_writhe disc_len om0 =
     (if om0 = 0 then None
      else
        (case remove_branch_overlap WM (map candidate_plec combbranches) of
           None \<Rightarrow> None
         | Some candidate_plecs \<Rightarrow>
             Some (plec_loop WM min_writhe_density min_writhe disc_len om0
                     (enumerate 0 candidate_plecs))))"

section \<open>The pipeline\<close>

text \<open>
  \<open>find_plecs\<close> is modelled from the writhe matrix that \<open>calculate_WM\<close> returns (the
  writhe map of the configuration, an external primitive, with its first and last row
  and column set to zero) and from a given \<open>disc_len\<close>.
\<close>

text \<open>\<open>pWM = np.sign(np.mean(WM)) * WM\<close>\<close>

definition mean_entry :: "matrix \<Rightarrow> real" where
  "mean_entry WM = sum_list (map sum_list WM) / real (sum_list (map length WM))"

definition sign_normalise :: "matrix \<Rightarrow> matrix" where
  "sign_normalise WM = map (map (\<lambda>v. sgn (mean_entry WM) * v)) WM"

text \<open>
  \<open>unify_branches\<close> calls \<open>build_branchtree\<close> of the module \<open>branching\<close>, which is not
  part of the sources at hand. The call can reach the caller's list only through the
  arrays in it, so the list keeps its length; what the arrays hold afterwards is a
  parameter: \<open>ub branches i\<close> is the array at index \<open>i\<close> after the call.
\<close>

definition unify_branches :: "(branch list \<Rightarrow> nat \<Rightarrow> branch) \<Rightarrow> branch list \<Rightarrow> branch list" where
  "unify_branches ub branches = map (ub branches) [0 ..< length branches]"

text \<open>The stages that run when at least one branch was found.\<close>

datatype stage = Overlap_resolver | Conflict_resolver | Branch_combiner | Plectoneme_definer

text \<open>Overlap and conflict resolution, each followed by the removal of flagged branches.\<close>

definition resolve_branches :: "matrix \<Rightarrow> bool \<Rightarrow> branch list \<Rightarrow> 't list
    \<Rightarrow> (branch list \<times> 't list) option" where
  "resolve_branches pWM no_overlap branches btracers =
     (case (if no_overlap
            then (case remove_branch_overlap pWM branches of
                    None \<Rightarrow> None
                  | Some bs \<Rightarrow> Some (remove_flagged_branches bs btracers))
            else Some (branches, btracers)) of
        None \<Rightarrow> None
      | Some (bs1, ts1) \<Rightarrow>
          Some (remove_flagged_branches (resolve_inconsistent_branches pWM bs1) ts1))"

text \<open>
  The body of \<open>if len(branches) > 0\<close>: the result is (\<open>plecs\<close>, \<open>plec_branch_ids\<close>,
  \<open>branches\<close>, \<open>tracers\<close>).
\<close>

definition trace_plectonemes :: "matrix \<Rightarrow> bool \<Rightarrow> real \<Rightarrow> real \<Rightarrow> real \<Rightarrow> real
    \<Rightarrow> branch list \<Rightarrow> 't list
    \<Rightarrow> (plec list \<times> nat list list \<times> branch list \<times> 't list) option" where
  "trace_plectonemes pWM no_overlap min_writhe_density plec_min_writhe disc_len om0
       branches btracers =
     (case resolve_branches pWM no_overlap branches btracers of
        None \<Rightarrow> None
      | Some (bs, ts) \<Rightarrow>
     (case combine_branches pWM bs min_writhe_density disc_len om0 of
        None \<Rightarrow> None
      | Some (combbranches, contained_ids) \<Rightarrow>
     (case define_plecs pWM combbranches min_writhe_density plec_min_writhe disc_len om0 of
        None \<Rightarrow> None
      | Some plecs \<Rightarrow>
          (let plec_branch_ids = map (\<lambda>p. contained_ids ! cand_id p) plecs
           in Some (plecs, plec_branch_ids,
                    map (\<lambda>item. bs ! item) (concat plec_branch_ids),
                    map (\<lambda>item. ts ! item) (concat plec_branch_ids))))))"

subsection \<open>The topology dictionary\<close>

record plecdict =
  plecdict_id1 :: int
  plecdict_id2 :: int
  plecdict_wrdens :: real
  plecdict_wr :: real
  plecdict_num_segs :: int
  plecdict_L :: real
  plecdict_branch_ids :: "nat list"

record branchdict =
  branchdict_id :: nat
  branchdict_x1 :: int
  branchdict_x2 :: int
  branchdict_y1 :: int
  branchdict_y2 :: int
  branchdict_wr :: real
  branchdict_wr_down :: real

record tracerdict =
  tracerdict_id :: nat
  tracerdict_points :: "(int \<times> real) list"

record topol =
  topol_N :: nat
  topol_L :: real
  topol_disc_len :: real
  topol_plecs :: "plecdict list"
  topol_branches :: "branchdict list"
  topol_tracers :: "tracerdict list"
  topol_wr :: real
  topol_num_plecs :: nat
  topol_num_branches :: nat
  topol_num_tracers :: nat
  topol_no_overlap :: bool
  topol_wm :: "matrix option"

definition make_plecdict :: "real \<Rightarrow> plec \<times> nat list \<Rightarrow> plecdict" where
  "make_plecdict disc_len pb =
     (case pb of (p, ids) \<Rightarrow>
        \<lparr>plecdict_id1 = id1 p, plecdict_id2 = id2 p, plecdict_wrdens = wrdens p, plecdict_wr = wr p,
         plecdict_num_segs = num_segs p, plecdict_L = real_of_int (num_segs p) * disc_len,
         plecdict_branch_ids = ids\<rparr>)"

text \<open>The writhe of a branch and the writhe downstream of it are taken from the raw matrix.\<close>

definition make_branchdict :: "matrix \<Rightarrow> nat \<times> branch \<Rightarrow> branchdict" where
  "make_branchdict WM ib =
     (case ib of (i, b) \<Rightarrow>
        \<lparr>branchdict_id = i, branchdict_x1 = X1 b, branchdict_x2 = X2 b, branchdict_y1 = Y1 b, branchdict_y2 = Y2 b,
         branchdict_wr = 2 * branch_writhe WM b,
         branchdict_wr_down = cal_branch_writhe WM (X1 b) (Y2 b) (X1 b) (Y2 b)\<rparr>)"

definition make_tracerdict :: "nat \<times> (int \<times> real) list \<Rightarrow> tracerdict" where
  "make_tracerdict it = (case it of (i, t) \<Rightarrow> \<lparr>tracerdict_id = i, tracerdict_points = t\<rparr>)"

text \<open>
  \<open>find_plecs\<close>, with the list of the stages it has run beside the dictionary. The
  warning printed for a branch that ends in the lower triangle changes nothing and is
  left out.
\<close>

definition find_plecs_stages :: "(branch list \<Rightarrow> nat \<Rightarrow> branch) \<Rightarrow> matrix \<Rightarrow> real \<Rightarrow> real
    \<Rightarrow> real \<Rightarrow> bool \<Rightarrow> real \<Rightarrow> real \<Rightarrow> bool \<Rightarrow> bool \<Rightarrow> (topol \<times> stage list) option" where
  "find_plecs_stages ub WM min_writhe_density plec_min_writhe disc_len no_overlap connect_dist
       om0 include_wm unify_branch_pieces =
     (let pWM = sign_normalise WM
      in case find_branches pWM min_writhe_density disc_len connect_dist om0 of
           None \<Rightarrow> None
         | Some (branches, btracers) \<Rightarrow>
        (case (if length branches > 0
               then map_option
                      (\<lambda>r. (r, (if no_overlap then [Overlap_resolver] else [])
                                 @ [Conflict_resolver, Branch_combiner, Plectoneme_definer]))
                      (trace_plectonemes pWM no_overlap min_writhe_density plec_min_writhe
                         disc_len om0 branches btracers)
               else Some (([], [], branches, btracers), [])) of
           None \<Rightarrow> None
         | Some ((plecs, plec_branch_ids, branches1, tracers1), stages) \<Rightarrow>
             (let (branches2, tracers2) =
                    (if unify_branch_pieces
                     then remove_flagged_branches (unify_branches ub branches1) tracers1
                     else (branches1, tracers1));
                  plecdicts = map (make_plecdict disc_len) (zip plecs plec_branch_ids);
                  branchdicts = map (make_branchdict WM) (enumerate 0 branches2);
                  tracerdicts = map make_tracerdict (enumerate 0 (take (length branches2) tracers2))
              in Some (\<lparr>topol_N = length WM,
                         topol_L = real (length WM) * disc_len,
                         topol_disc_len = disc_len,
                         topol_plecs = plecdicts,
                         topol_branches = branchdicts,
                         topol_tracers = tracerdicts,
                         topol_wr = total_writhe WM,
                         topol_num_plecs = length plecdicts,
                         topol_num_branches = length branchdicts,
                         topol_num_tracers = length tracerdicts,
                         topol_no_overlap = no_overlap,
                         topol_wm = (if include_wm then Some WM else None)\<rparr>, stages))))"

definition find_plecs :: "(branch list \<Rightarrow> nat \<Rightarrow> branch) \<Rightarrow> matrix \<Rightarrow> real \<Rightarrow> real
    \<Rightarrow> real \<Rightarrow> bool \<Rightarrow> real \<Rightarrow> real \<Rightarrow> bool \<Rightarrow> bool \<Rightarrow> topol option" where
  "find_plecs ub WM min_writhe_density plec_min_writhe disc_len no_overlap connect_dist
       om0 include_wm unify_branch_pieces =
     map_option fst
       (find_plecs_stages ub WM min_writhe_density plec_min_writhe disc_len no_overlap
          connect_dist om0 include_wm unify_branch_pieces)"

section \<open>Notions used in the properties\<close>

text \<open>An interval is valid when it is not empty; two intervals are disjoint as the
  first test of \<open>_remove_branchpair_overlap\<close> has it.\<close>

definition valid_lim :: "lim \<Rightarrow> bool" where
  "valid_lim l \<longleftrightarrow> fst l \<le> snd l"

definition disjoint_lims :: "lim \<Rightarrow> lim \<Rightarrow> bool" where
  "disjoint_lims l1 l2 \<longleftrightarrow> snd l1 < fst l2 \<or> snd l2 < fst l1"

text \<open>\<open>l'\<close> is what is left of \<open>l\<close>: when it is valid, it lies inside \<open>l\<close>.\<close>

definition shrinks :: "lim \<Rightarrow> lim \<Rightarrow> bool" where
  "shrinks l' l \<longleftrightarrow> (valid_lim l' \<longrightarrow> fst l \<le> fst l' \<and> snd l' \<le> snd l)"

definition branch_shrinks :: "branch \<Rightarrow> branch \<Rightarrow> bool" where
  "branch_shrinks b' b \<longleftrightarrow> shrinks (xlim b') (xlim b) \<and> shrinks (ylim b') (ylim b)"

text \<open>A branch is live when neither of its intervals is empty.\<close>

definition live :: "branch \<Rightarrow> bool" where
  "live b \<longleftrightarrow> valid_lim (xlim b) \<and> valid_lim (ylim b)"

text \<open>The four pairs of intervals that the resolver compares for two branches.\<close>

definition separate :: "branch \<Rightarrow> branch \<Rightarrow> bool" where
  "separate bi bj \<longleftrightarrow>
     disjoint_lims (ylim bi) (ylim bj) \<and> disjoint_lims (xlim bi) (ylim bj) \<and>
     disjoint_lims (ylim bi) (xlim bj) \<and> disjoint_lims (xlim bi) (xlim bj)"

definition settled :: "branch \<Rightarrow> branch \<Rightarrow> bool" where
  "settled bi bj \<longleftrightarrow> (live bi \<and> live bj \<longrightarrow> separate bi bj)"

text \<open>
  The matrix as \<open>calculate_WM\<close> returns it: square, with its first and last row and
  column set to zero.
\<close>

definition zero_boundary :: "matrix \<Rightarrow> bool" where
  "zero_boundary M \<longleftrightarrow>
     (\<forall>row \<in> set M. length row = length M \<and> row ! 0 = 0 \<and> row ! (length M - 1) = 0) \<and>
     (\<forall>x \<in> set (concat (take 1 M)). x = 0) \<and>
     (\<forall>x \<in> set (concat (drop (length M - 1) M)). x = 0)"

text \<open>An index that is neither \<open>0\<close> nor \<open>N - 1\<close>, for a matrix of \<open>N\<close> rows and columns.\<close>

definition interior :: "nat \<Rightarrow> int \<Rightarrow> bool" where
  "interior N k \<longleftrightarrow> 1 \<le> k \<and> k \<le> int N - 2"

definition in_range :: "nat \<Rightarrow> branch \<Rightarrow> bool" where
  "in_range N b \<longleftrightarrow> interior N (X1 b) \<and> interior N (X2 b) \<and> interior N (Y1 b) \<and> interior N (Y2 b)"

text \<open>What the overlap resolver keeps of an interval whose bounds were interior.\<close>

definition boxed_lim :: "nat \<Rightarrow> lim \<Rightarrow> bool" where
  "boxed_lim N l \<longleftrightarrow> 1 \<le> fst l \<and> fst l \<le> int N - 1 \<and> 0 \<le> snd l \<and> snd l \<le> int N - 2"

definition boxed :: "nat \<Rightarrow> branch \<Rightarrow> bool" where
  "boxed N b \<longleftrightarrow> boxed_lim N (xlim b) \<and> boxed_lim N (ylim b)"

definition interior_lim :: "nat \<Rightarrow> lim \<Rightarrow> bool" where
  "interior_lim N l \<longleftrightarrow> interior N (fst l) \<and> interior N (snd l)"

text \<open>The three lists of the tracer builder have one length and hold interior bounds.\<close>

definition tracers_interior :: "nat \<Rightarrow> tracer_state \<Rightarrow> bool" where
  "tracers_interior N ts \<longleftrightarrow>
     length (tracer_xlims ts) = length (tracers ts) \<and>
     length (tracer_ylims ts) = length (tracers ts) \<and>
     (\<forall>l \<in> set (tracer_xlims ts). interior_lim N l) \<and>
     (\<forall>l \<in> set (tracer_ylims ts). interior_lim N l)"

section \<open>Properties of the overlap resolver\<close>

lemma block_sum_zero [simp]: "block_sum (replicate n (replicate m 0)) r0 r1 c0 c1 = 0"
  by (simp add: block_sum_def py_slice_def Let_def sum_list_replicate)

lemma overlap_case_selected:
  "\<not> (snd l1 < fst l2 \<or> snd l2 < fst l1) \<Longrightarrow> fst (select_case l1 l2) \<noteq> None"
  by (auto simp: select_case_def Let_def)

text \<open>
  Claim C4, as amended. When the two compared intervals \<open>l1\<close> (of the first-listed
  branch) and \<open>l2\<close> overlap and the two sums that are compared are equal, the branch kept
  intact is branch \<open>a\<close> of the case that applies, whatever its place in the list: in
  case 2 (the upper bound of \<open>l1\<close> lies in \<open>l2\<close> and \<open>l1\<close> starts no later than \<open>l2\<close>) and
  in case 4 (\<open>l1\<close> strictly inside \<open>l2\<close>) the first-listed branch is truncated and the second
  kept; in case 1, when case 2 does not apply as well, and in case 3 (\<open>l2\<close> strictly inside
  \<open>l1\<close>) the second is truncated and the first-listed kept. One of the four cases always
  applies.
\<close>

theorem overlap_tie_keeps_a:
  assumes ov: "\<not> (snd l1 < fst l2 \<or> snd l2 < fst l1)"
  shows
   "((fst l2 \<le> snd l1 \<and> snd l1 \<le> snd l2 \<and> fst l1 \<le> fst l2) \<and>
      block_sum WM (fst x2) (snd x2 + 1) (fst l2) (snd l1 + 1)
        = block_sum WM (fst x1) (snd x1 + 1) (fst l2) (snd l1 + 1)
      \<longrightarrow> remove_branchpair_overlap WM x1 x2 l1 l2 = Some ((fst l1, fst l2 - 1), l2)) \<and>
    ((snd l1 < snd l2 \<and> fst l1 > fst l2) \<and>
      block_sum WM (fst x2) (snd x2 + 1) (fst l2) (snd l2 + 1)
        = block_sum WM (fst x1) (snd x1 + 1) (fst l1) (snd l1 + 1)
      \<longrightarrow> remove_branchpair_overlap WM x1 x2 l1 l2 = Some ((fst l1, fst l1 - 1), l2)) \<and>
    ((fst l1 \<le> snd l2 \<and> snd l2 \<le> snd l1 \<and> fst l2 \<le> fst l1) \<and>
      \<not> (fst l2 \<le> snd l1 \<and> snd l1 \<le> snd l2 \<and> fst l1 \<le> fst l2) \<and>
      block_sum WM (fst x1) (snd x1 + 1) (fst l1) (snd l2 + 1)
        = block_sum WM (fst x2) (snd x2 + 1) (fst l1) (snd l2 + 1)
      \<longrightarrow> remove_branchpair_overlap WM x1 x2 l1 l2 = Some (l1, (fst l2, fst l1 - 1))) \<and>
    ((snd l2 < snd l1 \<and> fst l2 > fst l1) \<and>
      block_sum WM (fst x1) (snd x1 + 1) (fst l1) (snd l1 + 1)
        = block_sum WM (fst x2) (snd x2 + 1) (fst l2) (snd l2 + 1)
      \<longrightarrow> remove_branchpair_overlap WM x1 x2 l1 l2 = Some (l1, (fst l2, fst l2 - 1))) \<and>
    ((fst l2 \<le> snd l1 \<and> snd l1 \<le> snd l2 \<and> fst l1 \<le> fst l2) \<or>
     (snd l1 < snd l2 \<and> fst l1 > fst l2) \<or>
     (fst l1 \<le> snd l2 \<and> snd l2 \<le> snd l1 \<and> fst l2 \<le> fst l1) \<or>
     (snd l2 < snd l1 \<and> fst l2 > fst l1))"
  using ov
  by (auto simp: remove_branchpair_overlap_def select_case_def truncate_pair_def Let_def)

text \<open>The four cases on an all-zero matrix, where every comparison is a tie.\<close>

theorem overlap_tie_keeps_a_witness:
  "remove_branchpair_overlap (replicate 16 (replicate 16 0)) (10, 11) (13, 14) (1, 5) (3, 8)
     = Some ((1, 2), (3, 8)) \<and>
   remove_branchpair_overlap (replicate 16 (replicate 16 0)) (10, 11) (13, 14) (4, 5) (3, 8)
     = Some ((4, 3), (3, 8)) \<and>
   remove_branchpair_overlap (replicate 16 (replicate 16 0)) (10, 11) (13, 14) (3, 8) (1, 5)
     = Some ((3, 8), (1, 2)) \<and>
   remove_branchpair_overlap (replicate 16 (replicate 16 0)) (10, 11) (13, 14) (3, 8) (4, 5)
     = Some ((3, 8), (4, 3))"
  using overlap_tie_keeps_a [of "(1, 5)" "(3, 8)" "replicate 16 (replicate 16 0)" "(13, 14)" "(10, 11)"]
        overlap_tie_keeps_a [of "(4, 5)" "(3, 8)" "replicate 16 (replicate 16 0)" "(13, 14)" "(10, 11)"]
        overlap_tie_keeps_a [of "(3, 8)" "(1, 5)" "replicate 16 (replicate 16 0)" "(13, 14)" "(10, 11)"]
        overlap_tie_keeps_a [of "(3, 8)" "(4, 5)" "replicate 16 (replicate 16 0)" "(13, 14)" "(10, 11)"]
  by simp

text \<open>
  Claim C4 as stated fails: on the all-zero matrix the y-intervals \<open>[1, 5]\<close> of the first
  branch and \<open>[3, 8]\<close> of the second overlap, the two sums over the columns \<open>3..5\<close> are
  equal, and it is the first-listed branch that is cut to \<open>[1, 2]\<close>.
\<close>

theorem tie_first_listed_counterexample:
  "block_sum (replicate 16 (replicate 16 0)) 13 15 3 6
     = block_sum (replicate 16 (replicate 16 0)) 10 12 3 6 \<and>
   remove_branch_overlap (replicate 16 (replicate 16 0))
     [\<lparr>X1 = 10, X2 = 11, Y1 = 1, Y2 = 5\<rparr>, \<lparr>X1 = 13, X2 = 14, Y1 = 3, Y2 = 8\<rparr>]
     = Some [\<lparr>X1 = 10, X2 = 11, Y1 = 1, Y2 = 2\<rparr>, \<lparr>X1 = 13, X2 = 14, Y1 = 3, Y2 = 8\<rparr>]"
  by code_simp

section \<open>Properties of the branch combiner\<close>

lemma combine_example_run:
  "combine_run
     ((replicate 11 (replicate 11 0))[4 := (replicate 11 0)[6 := 1], 6 := (replicate 11 0)[4 := 1]])
     1 [\<lparr>X1 = 1, X2 = 2, Y1 = 8, Y2 = 9\<rparr>, \<lparr>X1 = 4, X2 = 5, Y1 = 5, Y2 = 6\<rparr>]
   = \<lparr>combbranch = [\<lparr>X1 = 1, X2 = 2, Y1 = 8, Y2 = 9\<rparr>], contained_branch_ids = [[0, 1]],
       connect_calls = [((1, 9, 4, 6), False, [])]\<rparr>"
  by code_simp

lemma minwr_per_seg_example: "minwr_per_seg_of 1 1 (2 * pi) = 1"
  by (simp add: minwr_per_seg_of_def wr2dens_conv_fac_def)

text \<open>
  Claim C2 at a failing input. The matrix is 11 by 11 with the entries \<open>(4, 6)\<close> and
  \<open>(6, 4)\<close> equal to 1 and zero elsewhere; the thresholds give \<open>minwr_per_seg = 1\<close>. The
  second branch \<open>(4, 5, 5, 6)\<close> is downstream of the outer corners \<open>(1, 9)\<close> and of the
  inner corners \<open>(2, 8)\<close> of the composite made from the first branch \<open>(1, 2, 8, 9)\<close>, the
  connectivity test fails, and the writhe of the second branch, 1, is above the writhe
  of the composite, 0. The stored composite is still the first branch's rectangle.
\<close>

theorem combine_keeps_composite_of_lower_writhe:
  "is_downstream 1 9 4 6 \<and> is_downstream 2 8 4 6 \<and>
   can_connect_downstream_branches 1 9 4 6
        ((replicate 11 (replicate 11 0))[4 := (replicate 11 0)[6 := 1], 6 := (replicate 11 0)[4 := 1]])
        (minwr_per_seg_of 1 1 (2 * pi)) = (False, []) \<and>
   branch_writhe
     ((replicate 11 (replicate 11 0))[4 := (replicate 11 0)[6 := 1], 6 := (replicate 11 0)[4 := 1]])
     \<lparr>X1 = 4, X2 = 5, Y1 = 5, Y2 = 6\<rparr> = 1 \<and>
   branch_writhe
     ((replicate 11 (replicate 11 0))[4 := (replicate 11 0)[6 := 1], 6 := (replicate 11 0)[4 := 1]])
     \<lparr>X1 = 1, X2 = 2, Y1 = 8, Y2 = 9\<rparr> = 0 \<and>
   combine_branches
     ((replicate 11 (replicate 11 0))[4 := (replicate 11 0)[6 := 1], 6 := (replicate 11 0)[4 := 1]])
     [\<lparr>X1 = 1, X2 = 2, Y1 = 8, Y2 = 9\<rparr>, \<lparr>X1 = 4, X2 = 5, Y1 = 5, Y2 = 6\<rparr>] 1 1 (2 * pi)
     = Some ([\<lparr>X1 = 1, X2 = 2, Y1 = 8, Y2 = 9\<rparr>], [[0, 1]])"
proof -
  have down: "is_downstream 1 9 4 6 \<and> is_downstream 2 8 4 6"
    by (simp add: is_downstream_def)
  have no_conn: "can_connect_downstream_branches 1 9 4 6
        ((replicate 11 (replicate 11 0))[4 := (replicate 11 0)[6 := 1], 6 := (replicate 11 0)[4 := 1]]) 1
        = (False, [])"
    by code_simp
  have wr_i: "branch_writhe
     ((replicate 11 (replicate 11 0))[4 := (replicate 11 0)[6 := 1], 6 := (replicate 11 0)[4 := 1]])
     \<lparr>X1 = 4, X2 = 5, Y1 = 5, Y2 = 6\<rparr> = 1"
    by code_simp
  have wr_plec: "branch_writhe
     ((replicate 11 (replicate 11 0))[4 := (replicate 11 0)[6 := 1], 6 := (replicate 11 0)[4 := 1]])
     \<lparr>X1 = 1, X2 = 2, Y1 = 8, Y2 = 9\<rparr> = 0"
    by code_simp
  have "pi \<noteq> 0" by simp
  then show ?thesis
    using down no_conn wr_i wr_plec
    by (simp add: minwr_per_seg_example combine_branches_def combine_example_run)
qed

section \<open>Properties of the tracer builder\<close>

lemma find_branches_from_parts:
  assumes "disc_len \<noteq> 0" and "om0 \<noteq> 0"
    and "find_pairs WM (minwr_per_seg_of mwd disc_len om0) = Some ps"
    and "build_tracers \<lceil>connect_dist / disc_len\<rceil> ps = ts"
  shows "find_branches WM mwd disc_len connect_dist om0
           = Some (promote WM mwd disc_len om0 ts [0 ..< length (tracers ts)])"
  using assms by (simp add: find_branches_def)

text \<open>
  Claim C3 at a failing input. The matrix is 23 by 23 and symmetric, with the entries
  \<open>(1, 10)\<close>, \<open>(2, 20)\<close>, \<open>(3, 21)\<close>, \<open>(4, 15)\<close> and their mirror images equal to 1;
  \<open>connect_segs = 5\<close> and \<open>minwr_per_seg = 1/10\<close>. When the pair \<open>(4, 15)\<close> arrives, the
  first tracer holds two pairs and the second four, and both match the pair. The pair
  goes to the first tracer, the smaller one, and the branches that come out are
  \<open>(1, 4, 10, 15)\<close> and \<open>(2, 3, 20, 21)\<close>.
\<close>

theorem tracer_match_takes_first_not_largest:
  "match_loop 5
     \<lparr>tracers = [[\<lparr>p_x = 1, p_y = 10, rowsum = 1, weight = 2, flag = 1\<rparr>,
       \<lparr>p_x = 1, p_y = 10, rowsum = 1, weight = 2, flag = 1\<rparr>],
      [\<lparr>p_x = 2, p_y = 20, rowsum = 1, weight = 2, flag = 1\<rparr>,
       \<lparr>p_x = 2, p_y = 20, rowsum = 1, weight = 2, flag = 1\<rparr>,
       \<lparr>p_x = 3, p_y = 21, rowsum = 1, weight = 2, flag = 1\<rparr>,
       \<lparr>p_x = 3, p_y = 21, rowsum = 1, weight = 2, flag = 1\<rparr>]],
     tracer_xlims = [(1, 1), (2, 3)], tracer_ylims = [(10, 10), (20, 21)]\<rparr>
     \<lparr>p_x = 4, p_y = 15, rowsum = 1, weight = 2, flag = 1\<rparr> [0, 1] (- 1, 0) = (0, 5) \<and>
   add_pair 5
     \<lparr>tracers = [[\<lparr>p_x = 1, p_y = 10, rowsum = 1, weight = 2, flag = 1\<rparr>,
       \<lparr>p_x = 1, p_y = 10, rowsum = 1, weight = 2, flag = 1\<rparr>],
      [\<lparr>p_x = 2, p_y = 20, rowsum = 1, weight = 2, flag = 1\<rparr>,
       \<lparr>p_x = 2, p_y = 20, rowsum = 1, weight = 2, flag = 1\<rparr>,
       \<lparr>p_x = 3, p_y = 21, rowsum = 1, weight = 2, flag = 1\<rparr>,
       \<lparr>p_x = 3, p_y = 21, rowsum = 1, weight = 2, flag = 1\<rparr>]],
     tracer_xlims = [(1, 1), (2, 3)], tracer_ylims = [(10, 10), (20, 21)]\<rparr>
     \<lparr>p_x = 4, p_y = 15, rowsum = 1, weight = 2, flag = 1\<rparr>
   = \<lparr>tracers = [[\<lparr>p_x = 1, p_y = 10, rowsum = 1, weight = 2, flag = 1\<rparr>,
       \<lparr>p_x = 1, p_y = 10, rowsum = 1, weight = 2, flag = 1\<rparr>,
       \<lparr>p_x = 4, p_y = 15, rowsum = 1, weight = 2, flag = 1\<rparr>],
      [\<lparr>p_x = 2, p_y = 20, rowsum = 1, weight = 2, flag = 1\<rparr>,
       \<lparr>p_x = 2, p_y = 20, rowsum = 1, weight = 2, flag = 1\<rparr>,
       \<lparr>p_x = 3, p_y = 21, rowsum = 1, weight = 2, flag = 1\<rparr>,
       \<lparr>p_x = 3, p_y = 21, rowsum = 1, weight = 2, flag = 1\<rparr>]],
     tracer_xlims = [(1, 4), (2, 3)], tracer_ylims = [(10, 15), (20, 21)]\<rparr> \<and>
   map_option fst (find_branches
     ((replicate 23 (replicate 23 0))
      [1 := (replicate 23 0)[10 := 1], 2 := (replicate 23 0)[20 := 1],
       3 := (replicate 23 0)[21 := 1], 4 := (replicate 23 0)[15 := 1],
       10 := (replicate 23 0)[1 := 1], 15 := (replicate 23 0)[4 := 1],
       20 := (replicate 23 0)[2 := 1], 21 := (replicate 23 0)[3 := 1]])
     (1 / 10) 1 5 (2 * pi))
   = Some [\<lparr>X1 = 1, X2 = 4, Y1 = 10, Y2 = 15\<rparr>, \<lparr>X1 = 2, X2 = 3, Y1 = 20, Y2 = 21\<rparr>]"
proof -
  define W :: matrix where "W = ((replicate 23 (replicate 23 0))
      [1 := (replicate 23 0)[10 := 1], 2 := (replicate 23 0)[20 := 1],
       3 := (replicate 23 0)[21 := 1], 4 := (replicate 23 0)[15 := 1],
       10 := (replicate 23 0)[1 := 1], 15 := (replicate 23 0)[4 := 1],
       20 := (replicate 23 0)[2 := 1], 21 := (replicate 23 0)[3 := 1]])"
  define ps where "ps = [\<lparr>p_x = 1, p_y = 10, rowsum = 1, weight = 2, flag = 1\<rparr>,
      \<lparr>p_x = 1, p_y = 10, rowsum = 1, weight = 2, flag = 1\<rparr>,
      \<lparr>p_x = 2, p_y = 20, rowsum = 1, weight = 2, flag = 1\<rparr>,
      \<lparr>p_x = 2, p_y = 20, rowsum = 1, weight = 2, flag = 1\<rparr>,
      \<lparr>p_x = 3, p_y = 21, rowsum = 1, weight = 2, flag = 1\<rparr>,
      \<lparr>p_x = 3, p_y = 21, rowsum = 1, weight = 2, flag = 1\<rparr>,
      \<lparr>p_x = 4, p_y = 15, rowsum = 1, weight = 2, flag = 1\<rparr>,
      \<lparr>p_x = 4, p_y = 15, rowsum = 1, weight = 2, flag = 1\<rparr>]"
  define ts where "ts = \<lparr>tracers = [[\<lparr>p_x = 1, p_y = 10, rowsum = 1, weight = 2, flag = 1\<rparr>,
       \<lparr>p_x = 1, p_y = 10, rowsum = 1, weight = 2, flag = 1\<rparr>,
       \<lparr>p_x = 4, p_y = 15, rowsum = 1, weight = 2, flag = 1\<rparr>,
       \<lparr>p_x = 4, p_y = 15, rowsum = 1, weight = 2, flag = 1\<rparr>],
      [\<lparr>p_x = 2, p_y = 20, rowsum = 1, weight = 2, flag = 1\<rparr>,
       \<lparr>p_x = 2, p_y = 20, rowsum = 1, weight = 2, flag = 1\<rparr>,
       \<lparr>p_x = 3, p_y = 21, rowsum = 1, weight = 2, flag = 1\<rparr>,
       \<lparr>p_x = 3, p_y = 21, rowsum = 1, weight = 2, flag = 1\<rparr>]],
     tracer_xlims = [(1, 4), (2, 3)], tracer_ylims = [(10, 15), (20, 21)]\<rparr>"
  have fac: "wr2dens_conv_fac (2 * pi) = 1"
    by (simp add: wr2dens_conv_fac_def)
  have thr: "minwr_per_seg_of (1 / 10) 1 (2 * pi) = 1 / 10"
    by (simp add: minwr_per_seg_of_def fac)
  have m: "match_loop 5
     \<lparr>tracers = [[\<lparr>p_x = 1, p_y = 10, rowsum = 1, weight = 2, flag = 1\<rparr>,
       \<lparr>p_x = 1, p_y = 10, rowsum = 1, weight = 2, flag = 1\<rparr>],
      [\<lparr>p_x = 2, p_y = 20, rowsum = 1, weight = 2, flag = 1\<rparr>,
       \<lparr>p_x = 2, p_y = 20, rowsum = 1, weight = 2, flag = 1\<rparr>,
       \<lparr>p_x = 3, p_y = 21, rowsum = 1, weight = 2, flag = 1\<rparr>,
       \<lparr>p_x = 3, p_y = 21, rowsum = 1, weight = 2, flag = 1\<rparr>]],
     tracer_xlims = [(1, 1), (2, 3)], tracer_ylims = [(10, 10), (20, 21)]\<rparr>
     \<lparr>p_x = 4, p_y = 15, rowsum = 1, weight = 2, flag = 1\<rparr> [0, 1] (- 1, 0) = (0, 5)"
    by code_simp
  have a: "add_pair 5
     \<lparr>tracers = [[\<lparr>p_x = 1, p_y = 10, rowsum = 1, weight = 2, flag = 1\<rparr>,
       \<lparr>p_x = 1, p_y = 10, rowsum = 1, weight = 2, flag = 1\<rparr>],
      [\<lparr>p_x = 2, p_y = 20, rowsum = 1, weight = 2, flag = 1\<rparr>,
       \<lparr>p_x = 2, p_y = 20, rowsum = 1, weight = 2, flag = 1\<rparr>,
       \<lparr>p_x = 3, p_y = 21, rowsum = 1, weight = 2, flag = 1\<rparr>,
       \<lparr>p_x = 3, p_y = 21, rowsum = 1, weight = 2, flag = 1\<rparr>]],
     tracer_xlims = [(1, 1), (2, 3)], tracer_ylims = [(10, 10), (20, 21)]\<rparr>
     \<lparr>p_x = 4, p_y = 15, rowsum = 1, weight = 2, flag = 1\<rparr>
   = \<lparr>tracers = [[\<lparr>p_x = 1, p_y = 10, rowsum = 1, weight = 2, flag = 1\<rparr>,
       \<lparr>p_x = 1, p_y = 10, rowsum = 1, weight = 2, flag = 1\<rparr>,
       \<lparr>p_x = 4, p_y = 15, rowsum = 1, weight = 2, flag = 1\<rparr>],
      [\<lparr>p_x = 2, p_y = 20, rowsum = 1, weight = 2, flag = 1\<rparr>,
       \<lparr>p_x = 2, p_y = 20, rowsum = 1, weight = 2, flag = 1\<rparr>,
       \<lparr>p_x = 3, p_y = 21, rowsum = 1, weight = 2, flag = 1\<rparr>,
       \<lparr>p_x = 3, p_y = 21, rowsum = 1, weight = 2, flag = 1\<rparr>]],
     tracer_xlims = [(1, 4), (2, 3)], tracer_ylims = [(10, 15), (20, 21)]\<rparr>"
    by code_simp
  have pairs: "find_pairs W (1 / 10) = Some ps"
    unfolding W_def ps_def by code_simp
  have trs: "build_tracers 5 ps = ts"
    unfolding ps_def ts_def by code_simp
  have s0: "block_sum W 1 5 10 16 = 2"
    unfolding W_def by code_simp
  have s1: "block_sum W 2 4 20 22 = 2"
    unfolding W_def by code_simp
  have ts_sel: "length (tracers ts) = 2" "tracer_xlims ts = [(1, 4), (2, 3)]"
    "tracer_ylims ts = [(10, 15), (20, 21)]"
    by (simp_all add: ts_def)
  have d0: "tracer_wrdens W 1 (2 * pi) (1, 4) (10, 15) = 2 / 3"
    by (simp add: tracer_wrdens_def fac s0 maxint_def)
  have d1: "tracer_wrdens W 1 (2 * pi) (2, 3) (20, 21) = 2"
    by (simp add: tracer_wrdens_def fac s1 maxint_def)
  have fb: "find_branches W (1 / 10) 1 5 (2 * pi)
              = Some (promote W (1 / 10) 1 (2 * pi) ts [0 ..< length (tracers ts)])"
    using find_branches_from_parts [where disc_len = 1 and ?om0.0 = "2 * pi" and WM = W
        and mwd = "1 / 10" and ps = ps and connect_dist = 5 and ts = ts]
    by (simp add: thr pairs trs)
  have idx: "[0 ..< 2] = [0, Suc 0]"
    by code_simp
  have "map_option fst (find_branches W (1 / 10) 1 5 (2 * pi))
          = Some [\<lparr>X1 = 1, X2 = 4, Y1 = 10, Y2 = 15\<rparr>, \<lparr>X1 = 2, X2 = 3, Y1 = 20, Y2 = 21\<rparr>]"
    by (simp add: fb ts_sel idx d0 d1 mk_branch_def split_def)
  with m a show ?thesis
    unfolding W_def by simp
qed

section \<open>The divisor of the connectivity test\<close>

lemma block_sum_empty_rows: "block_sum WM a a c d = 0"
  by (simp add: block_sum_def py_slice_def)

lemma block_sum_from_empty_cols: "block_sum_from WM b c c = 0"
  by (simp add: block_sum_from_def py_slice_def)

lemma np_divide_signals: "snd (np_divide w n) \<noteq> [] \<longleftrightarrow> n = 0"
  by (simp add: np_divide_def)

lemma can_connect_same_corner:
  "x \<le> y \<Longrightarrow> can_connect_downstream_branches x y x y WM m = (False, [Invalid_value])"
  by (simp add: can_connect_downstream_branches_def is_downstream_def block_sum_empty_rows
      block_sum_from_empty_cols maxint_def np_divide_def)

text \<open>
  Claim C9. \<open>_can_connect_downstream_branches\<close> divides by
  \<open>num_segs = max(b1 - a1, a2 - b2)\<close> without a test: a call signals a floating-point
  error exactly when its arguments pass the downstream test and this divisor is zero.
  The divisor is zero on a call that \<open>_combine_branches\<close> makes: for any matrix and
  threshold, on a list of two branches of which the first is a single point
  \<open>(x, x, y, y)\<close> with \<open>x \<le> y\<close> and the second has the same reference corner
  \<open>(x1, y2) = (x, y)\<close>, the combiner makes one call of the test, with
  \<open>(a1, a2, b1, b2) = (x, y, x, y)\<close>. There \<open>num_segs\<close> is zero, the three sums are taken
  over empty blocks, and the division is \<open>0 / 0\<close>: it signals \<open>invalid value\<close>, gives
  \<open>nan\<close>, and the test returns false.
\<close>

theorem connect_divisor_zero:
  assumes "x \<le> y" and "X1 b = x" and "Y2 b = y"
  shows "(snd (can_connect_downstream_branches a1 a2 b1 b2 WM m) \<noteq> []
            \<longleftrightarrow> is_downstream a1 a2 b1 b2 \<and> maxint (b1 - a1) (a2 - b2) = 0) \<and>
         maxint (X1 b - x) (y - Y2 b) = 0 \<and>
         can_connect_downstream_branches x y (X1 b) (Y2 b) WM m = (False, [Invalid_value]) \<and>
         connect_calls (combine_run WM m [\<lparr>X1 = x, X2 = x, Y1 = y, Y2 = y\<rparr>, b])
           = [((x, y, X1 b, Y2 b), False, [Invalid_value])]"
proof -
  have sig: "snd (can_connect_downstream_branches a1 a2 b1 b2 WM m) \<noteq> []
            \<longleftrightarrow> is_downstream a1 a2 b1 b2 \<and> maxint (b1 - a1) (a2 - b2) = 0"
    using np_divide_signals
    by (simp add: can_connect_downstream_branches_def Let_def split_def)
  have idx: "[0 ..< 2] = [0, Suc 0]"
    by code_simp
  have "connect_calls (combine_run WM m [\<lparr>X1 = x, X2 = x, Y1 = y, Y2 = y\<rparr>, b])
           = [((x, y, x, y), False, [Invalid_value])]"
    using assms
    by (simp add: combine_run_def idx combine_step_def is_downstream_def
        can_connect_same_corner Let_def)
  with assms sig show ?thesis
    by (simp add: can_connect_same_corner maxint_def)
qed

text \<open>
  Such a list comes out of the branch classifier. The matrix is 6 by 6 and symmetric,
  with zero boundary, and its entries \<open>(1, 4)\<close> and \<open>(4, 1)\<close> are 1; \<open>connect_dist = -1\<close>,
  so that no pair joins an open tracer, and \<open>minwr_per_seg = 1/10\<close>. The rows 1 and 4
  both give the pair \<open>(1, 4)\<close>, each copy opens a tracer of its own, both tracers are
  promoted, and the conflict resolver (the overlap resolver is switched off) keeps the
  two branches \<open>(1, 1, 4, 4)\<close>. The two pairs are equal, so the order in which the sort
  returns them does not matter.
\<close>

theorem connect_divisor_zero_witness:
  "(1::int) \<le> 4 \<and>
   (\<exists>ts. find_branches
       (sign_normalise
          ((replicate 6 (replicate 6 0))[1 := (replicate 6 0)[4 := 1], 4 := (replicate 6 0)[1 := 1]]))
       (1 / 10) 1 (- 1) (2 * pi)
       = Some ([\<lparr>X1 = 1, X2 = 1, Y1 = 4, Y2 = 4\<rparr>, \<lparr>X1 = 1, X2 = 1, Y1 = 4, Y2 = 4\<rparr>], ts) \<and>
     resolve_branches
       (sign_normalise
          ((replicate 6 (replicate 6 0))[1 := (replicate 6 0)[4 := 1], 4 := (replicate 6 0)[1 := 1]]))
       False [\<lparr>X1 = 1, X2 = 1, Y1 = 4, Y2 = 4\<rparr>, \<lparr>X1 = 1, X2 = 1, Y1 = 4, Y2 = 4\<rparr>] ts
       = Some ([\<lparr>X1 = 1, X2 = 1, Y1 = 4, Y2 = 4\<rparr>, \<lparr>X1 = 1, X2 = 1, Y1 = 4, Y2 = 4\<rparr>], ts)) \<and>
   can_connect_downstream_branches 1 4 1 4
       (sign_normalise
          ((replicate 6 (replicate 6 0))[1 := (replicate 6 0)[4 := 1], 4 := (replicate 6 0)[1 := 1]]))
       (minwr_per_seg_of (1 / 10) 1 (2 * pi)) = (False, [Invalid_value]) \<and>
   connect_calls (combine_run
       (sign_normalise
          ((replicate 6 (replicate 6 0))[1 := (replicate 6 0)[4 := 1], 4 := (replicate 6 0)[1 := 1]]))
       (minwr_per_seg_of (1 / 10) 1 (2 * pi))
       [\<lparr>X1 = 1, X2 = 1, Y1 = 4, Y2 = 4\<rparr>, \<lparr>X1 = 1, X2 = 1, Y1 = 4, Y2 = 4\<rparr>])
     = [((1, 4, 1, 4), False, [Invalid_value])]"
proof -
  define W :: matrix where
    "W = (replicate 6 (replicate 6 0))[1 := (replicate 6 0)[4 := 1], 4 := (replicate 6 0)[1 := 1]]"
  define A where "A = \<lparr>X1 = 1, X2 = 1, Y1 = 4, Y2 = (4::int)\<rparr>"
  define p where "p = \<lparr>p_x = 1, p_y = 4, rowsum = 1, weight = 2, flag = 1\<rparr>"
  define ts where "ts = \<lparr>tracers = [[p], [p]], tracer_xlims = [(1, 1), (1, 1)],
      tracer_ylims = [(4, 4), (4, 4)]\<rparr>"
  have sn: "sign_normalise W = W"
    unfolding W_def by code_simp
  have fac: "wr2dens_conv_fac (2 * pi) = 1"
    by (simp add: wr2dens_conv_fac_def)
  have thr: "minwr_per_seg_of (1 / 10) 1 (2 * pi) = 1 / 10"
    by (simp add: minwr_per_seg_of_def fac)
  have pairs: "find_pairs W (1 / 10) = Some [p, p]"
    unfolding W_def p_def by code_simp
  have ce: "\<lceil>- 1 :: real\<rceil> = - 1"
    by (simp add: ceiling_minus)
  have trs: "build_tracers (- 1) [p, p] = ts"
    unfolding p_def ts_def by code_simp
  have s: "block_sum W 1 2 4 5 = 1"
    unfolding W_def by code_simp
  have d: "tracer_wrdens W 1 (2 * pi) (1, 1) (4, 4) = 2"
    by (simp add: tracer_wrdens_def fac s maxint_def)
  have band: "tracer_band [p] (1, 1) (4, 4) = [(1, 4)]"
    unfolding p_def by code_simp
  have ts_sel: "length (tracers ts) = 2" "tracer_xlims ts = [(1, 1), (1, 1)]"
    "tracer_ylims ts = [(4, 4), (4, 4)]" "tracers ts = [[p], [p]]"
    by (simp_all add: ts_def)
  have idx: "[0 ..< 2] = [0, Suc 0]"
    by code_simp
  have fb: "find_branches W (1 / 10) 1 (- 1) (2 * pi)
              = Some (promote W (1 / 10) 1 (2 * pi) ts [0 ..< length (tracers ts)])"
    using find_branches_from_parts [where disc_len = 1 and ?om0.0 = "2 * pi" and WM = W
        and mwd = "1 / 10" and ps = "[p, p]" and connect_dist = "- 1" and ts = ts]
    by (simp add: thr pairs trs ce)
  have fb2: "find_branches W (1 / 10) 1 (- 1) (2 * pi) = Some ([A, A], [[(1, 4)], [(1, 4)]])"
    by (simp add: fb ts_sel idx d band mk_branch_def split_def A_def)
  have corner: "X1 A = 1" "Y2 A = 4"
    by (simp_all add: A_def)
  have ri: "resolve_inconsistent_branches W [A, A] = [A, A]"
    unfolding W_def A_def by code_simp
  have rb: "resolve_branches W False [A, A] [[(1::int, 4::real)], [(1, 4)]]
              = Some ([A, A], [[(1, 4)], [(1, 4)]])"
    by (simp add: resolve_branches_def ri remove_flagged_branches_def corner)
  have le: "(1::int) \<le> 4"
    by simp
  from connect_divisor_zero [OF le corner, of _ _ _ _ W "1 / 10"]
  have "can_connect_downstream_branches 1 4 1 4 W (1 / 10) = (False, [Invalid_value])"
    and "connect_calls (combine_run W (1 / 10) [A, A]) = [((1, 4, 1, 4), False, [Invalid_value])]"
    by (simp_all add: A_def)
  with fb2 rb le show ?thesis
    unfolding sn [unfolded W_def] thr W_def A_def by blast
qed

section \<open>Properties of the conflict resolver\<close>

lemma conflict_scan_filter:
  "conflict_scan WM bs a1 a2 js (cw, ids) =
     (cw + sum_list (map (\<lambda>j. branch_writhe WM (bs ! j))
             (filter (\<lambda>j. X1 (bs ! j) \<noteq> - 1 \<and> X1 (bs ! j) < a1 \<and> a1 < Y2 (bs ! j)
                         \<and> \<not> is_downstream (X1 (bs ! j)) (Y2 (bs ! j)) a1 a2) js)),
      ids @ filter (\<lambda>j. X1 (bs ! j) \<noteq> - 1 \<and> X1 (bs ! j) < a1 \<and> a1 < Y2 (bs ! j)
                         \<and> \<not> is_downstream (X1 (bs ! j)) (Y2 (bs ! j)) a1 a2) js)"
  by (induction js arbitrary: cw ids) (auto simp: Let_def)

lemma set_flag_idem: "set_flag (set_flag b) = set_flag b"
  by (simp add: set_flag_def)

lemma length_fold_flag:
  "length (fold (\<lambda>cid bs'. bs'[cid := set_flag (bs' ! cid)]) ids bs) = length bs"
  by (induction ids arbitrary: bs) auto

lemma nth_fold_flag:
  "k < length bs \<Longrightarrow>
   fold (\<lambda>cid bs'. bs'[cid := set_flag (bs' ! cid)]) ids bs ! k
     = (if k \<in> set ids then set_flag (bs ! k) else bs ! k)"
proof (induction ids arbitrary: bs)
  case Nil
  then show ?case by simp
next
  case (Cons c ids)
  then show ?case
    by (cases "c = k") (auto simp: set_flag_idem nth_list_update)
qed

text \<open>
  Claim C5, as amended. One step of the conflict resolver, for branch \<open>i\<close>: let \<open>C\<close> be the
  earlier branches \<open>j\<close> that are not flagged, whose range from \<open>x1\<close> to \<open>y2\<close> strictly
  contains the entry point \<open>x1\<close> of branch \<open>i\<close>, and of which branch \<open>i\<close> is not downstream,
  and let \<open>cw\<close> be the sum of their writhes. If \<open>cw\<close> is positive and the writhe of branch
  \<open>i\<close> exceeds it, exactly the branches of \<open>C\<close> are flagged; if \<open>cw\<close> is positive and the
  writhe of branch \<open>i\<close> does not exceed it, exactly branch \<open>i\<close> is flagged; if \<open>cw\<close> is not
  positive (in particular when \<open>C\<close> is empty) the step changes nothing. The resolver runs
  this step for \<open>i = 1, 2, \<dots>\<close> in this order.
\<close>

theorem resolve_step_flags:
  fixes WM :: matrix and bs :: "branch list" and i :: nat
  defines "C \<equiv> filter (\<lambda>j. X1 (bs ! j) \<noteq> - 1
                          \<and> X1 (bs ! j) < X1 (bs ! i) \<and> X1 (bs ! i) < Y2 (bs ! j)
                          \<and> \<not> is_downstream (X1 (bs ! j)) (Y2 (bs ! j)) (X1 (bs ! i)) (Y2 (bs ! i)))
                     [0 ..< i]"
  defines "cw \<equiv> sum_list (map (\<lambda>j. branch_writhe WM (bs ! j)) C)"
  assumes i: "i < length bs"
  shows "resolve_inconsistent_branches WM bs = fold (resolve_step WM) [1 ..< length bs] bs \<and>
         length (resolve_step WM i bs) = length bs \<and>
         (\<forall>k < length bs.
            resolve_step WM i bs ! k =
              (if cw > 0 \<and> branch_writhe WM (bs ! i) > cw \<and> k \<in> set C then set_flag (bs ! k)
               else if cw > 0 \<and> \<not> branch_writhe WM (bs ! i) > cw \<and> k = i then set_flag (bs ! k)
               else bs ! k))"
  using i unfolding C_def cw_def
  by (auto simp: resolve_step_def conflict_scan_filter Let_def length_fold_flag nth_fold_flag
        nth_list_update resolve_inconsistent_branches_def)

text \<open>
  The step at a concrete input: the earlier branch \<open>(1, 2, 9, 10)\<close> has writhe 1, branch
  \<open>(5, 6, 12, 13)\<close> has writhe 2 and starts inside \<open>[1, 10]\<close> without being downstream of
  it, so the earlier branch is flagged.
\<close>

theorem resolve_step_flags_witness:
  "(1::nat) < length [\<lparr>X1 = 1, X2 = 2, Y1 = 9, Y2 = 10\<rparr>, \<lparr>X1 = 5, X2 = 6, Y1 = 12, Y2 = 13\<rparr>] \<and>
   resolve_step
       ((replicate 16 (replicate 16 0))
          [1 := (replicate 16 0)[9 := 1], 9 := (replicate 16 0)[1 := 1],
           5 := (replicate 16 0)[12 := 2], 12 := (replicate 16 0)[5 := 2]]) 1
       [\<lparr>X1 = 1, X2 = 2, Y1 = 9, Y2 = 10\<rparr>, \<lparr>X1 = 5, X2 = 6, Y1 = 12, Y2 = 13\<rparr>] ! 0
     = \<lparr>X1 = - 1, X2 = 2, Y1 = 9, Y2 = 10\<rparr> \<and>
   resolve_step
       ((replicate 16 (replicate 16 0))
          [1 := (replicate 16 0)[9 := 1], 9 := (replicate 16 0)[1 := 1],
           5 := (replicate 16 0)[12 := 2], 12 := (replicate 16 0)[5 := 2]]) 1
       [\<lparr>X1 = 1, X2 = 2, Y1 = 9, Y2 = 10\<rparr>, \<lparr>X1 = 5, X2 = 6, Y1 = 12, Y2 = 13\<rparr>] ! 1
     = \<lparr>X1 = 5, X2 = 6, Y1 = 12, Y2 = 13\<rparr>"
proof -
  define W :: matrix where "W = (replicate 16 (replicate 16 0))
          [1 := (replicate 16 0)[9 := 1], 9 := (replicate 16 0)[1 := 1],
           5 := (replicate 16 0)[12 := 2], 12 := (replicate 16 0)[5 := 2]]"
  have w0: "branch_writhe W \<lparr>X1 = 1, X2 = 2, Y1 = 9, Y2 = 10\<rparr> = 1"
    unfolding W_def by code_simp
  have w1: "branch_writhe W \<lparr>X1 = 5, X2 = 6, Y1 = 12, Y2 = 13\<rparr> = 2"
    unfolding W_def by code_simp
  have len: "(1::nat) < length [\<lparr>X1 = 1, X2 = 2, Y1 = 9, Y2 = 10\<rparr>, \<lparr>X1 = 5, X2 = 6, Y1 = 12, Y2 = 13\<rparr>]"
    by simp
  note step = resolve_step_flags [OF len, of W, THEN conjunct2, THEN conjunct2]
  have "resolve_step W 1 [\<lparr>X1 = 1, X2 = 2, Y1 = 9, Y2 = 10\<rparr>, \<lparr>X1 = 5, X2 = 6, Y1 = 12, Y2 = 13\<rparr>] ! 0
          = \<lparr>X1 = - 1, X2 = 2, Y1 = 9, Y2 = 10\<rparr>"
    using step [THEN spec, of 0] by (simp add: w0 w1 is_downstream_def set_flag_def)
  moreover have "resolve_step W 1 [\<lparr>X1 = 1, X2 = 2, Y1 = 9, Y2 = 10\<rparr>, \<lparr>X1 = 5, X2 = 6, Y1 = 12, Y2 = 13\<rparr>] ! 1
          = \<lparr>X1 = 5, X2 = 6, Y1 = 12, Y2 = 13\<rparr>"
    using step [THEN spec, of 1] by (simp add: w0 w1 is_downstream_def set_flag_def)
  ultimately show ?thesis
    using len unfolding W_def by simp
qed

text \<open>
  Claim C5 as stated fails where the conflicting writhe is not positive. On the all-zero
  matrix branch \<open>(5, 6, 12, 13)\<close> starts strictly inside the earlier branch
  \<open>(1, 8, 9, 10)\<close>, both inside its x-range \<open>[1, 8]\<close> and inside \<open>[1, 10]\<close>, and is not
  downstream of it; its writhe 0 does not exceed the conflicting sum 0, and yet neither
  branch is flagged.
\<close>

theorem conflict_not_positive_counterexample:
  "conflict_scan (replicate 16 (replicate 16 0))
     [\<lparr>X1 = 1, X2 = 8, Y1 = 9, Y2 = 10\<rparr>, \<lparr>X1 = 5, X2 = 6, Y1 = 12, Y2 = 13\<rparr>] 5 13 [0] (0, [])
     = (0, [0]) \<and>
   \<not> branch_writhe (replicate 16 (replicate 16 0)) \<lparr>X1 = 5, X2 = 6, Y1 = 12, Y2 = 13\<rparr> > 0 \<and>
   resolve_inconsistent_branches (replicate 16 (replicate 16 0))
     [\<lparr>X1 = 1, X2 = 8, Y1 = 9, Y2 = 10\<rparr>, \<lparr>X1 = 5, X2 = 6, Y1 = 12, Y2 = 13\<rparr>]
     = [\<lparr>X1 = 1, X2 = 8, Y1 = 9, Y2 = 10\<rparr>, \<lparr>X1 = 5, X2 = 6, Y1 = 12, Y2 = 13\<rparr>]"
  by code_simp

section \<open>Properties of the pipeline\<close>

lemma all_pairs_unflagged:
  "\<forall>row \<in> set WM. row \<noteq> [] \<and> \<not> sum_list row > m \<Longrightarrow>
   \<exists>ps. all_pairs m i WM = Some ps \<and> (\<forall>p \<in> set ps. flag p = 0)"
proof (induction WM arbitrary: i)
  case Nil
  then show ?case by simp
next
  case (Cons row rows)
  from Cons.prems obtain x rest where row: "row = x # rest"
    by (cases row) auto
  from Cons.prems have small: "\<not> sum_list row > m"
    by simp
  from Cons.IH [of "Suc i"] Cons.prems obtain ps
    where ps: "all_pairs m (Suc i) rows = Some ps" "\<forall>p \<in> set ps. flag p = 0"
    by auto
  show ?case
    using small ps by (simp add: row row_pair_def argmax_def)
qed

lemma find_pairs_empty:
  assumes "\<forall>row \<in> set WM. row \<noteq> [] \<and> \<not> sum_list row > m"
  shows "find_pairs WM m = Some []"
proof -
  from all_pairs_unflagged [OF assms, of 0] obtain ps
    where ps: "all_pairs m 0 WM = Some ps" "\<forall>p \<in> set ps. flag p = 0"
    by blast
  from ps(2) have "filter (\<lambda>p. flag p \<noteq> 0) ps = []"
    by (simp add: filter_empty_conv)
  then show ?thesis
    by (simp add: find_pairs_def ps(1))
qed

lemma find_branches_empty:
  assumes "disc_len \<noteq> 0" and "om0 \<noteq> 0"
    and "\<forall>row \<in> set WM. row \<noteq> [] \<and> \<not> sum_list row > minwr_per_seg_of mwd disc_len om0"
  shows "find_branches WM mwd disc_len connect_dist om0 = Some ([], [])"
  using assms(1,2) find_pairs_empty [OF assms(3)]
  by (simp add: find_branches_def build_tracers_def)

lemma sign_normalise_rows:
  "row \<in> set (sign_normalise WM) \<Longrightarrow> \<exists>r \<in> set WM. length row = length r"
  by (auto simp: sign_normalise_def)

text \<open>
  Claim C8. The matrix is square, and \<open>disc_len\<close> and \<open>om0\<close> are not zero, so that the
  threshold \<open>minwr_per_seg\<close> exists. If no row sum of the sign-normalised matrix exceeds
  the threshold, \<open>find_plecs\<close> returns the dictionary with no plectoneme, no branch and
  no tracer, all three counts zero, and none of the four later stages has run.
\<close>

theorem find_plecs_empty:
  assumes square: "\<forall>row \<in> set WM. length row = length WM"
    and dl: "disc_len \<noteq> 0" and om: "om0 \<noteq> 0"
    and small: "\<forall>row \<in> set (sign_normalise WM).
                  \<not> sum_list row > minwr_per_seg_of min_writhe_density disc_len om0"
  shows "find_plecs_stages ub WM min_writhe_density plec_min_writhe disc_len no_overlap
           connect_dist om0 include_wm unify_branch_pieces
         = Some (\<lparr>topol_N = length WM,
                   topol_L = real (length WM) * disc_len,
                   topol_disc_len = disc_len,
                   topol_plecs = [],
                   topol_branches = [],
                   topol_tracers = [],
                   topol_wr = total_writhe WM,
                   topol_num_plecs = 0,
                   topol_num_branches = 0,
                   topol_num_tracers = 0,
                   topol_no_overlap = no_overlap,
                   topol_wm = (if include_wm then Some WM else None)\<rparr>, [])
       \<and> map_option topol_num_branches
           (find_plecs ub WM min_writhe_density plec_min_writhe disc_len no_overlap
              connect_dist om0 include_wm unify_branch_pieces) = Some 0"
proof -
  have nonempty: "\<forall>row \<in> set (sign_normalise WM). row \<noteq> []"
  proof
    fix row assume row: "row \<in> set (sign_normalise WM)"
    then obtain r where "r \<in> set WM" "length row = length r"
      using sign_normalise_rows by blast
    with square have "length row = length WM" by simp
    moreover from row have "WM \<noteq> []" by (auto simp: sign_normalise_def)
    ultimately show "row \<noteq> []" by auto
  qed
  have fb: "find_branches (sign_normalise WM) min_writhe_density disc_len connect_dist om0
              = Some ([], [])"
    using nonempty small by (intro find_branches_empty [OF dl om]) simp
  show ?thesis
    by (simp add: find_plecs_def find_plecs_stages_def fb unify_branches_def
          remove_flagged_branches_def)
qed

text \<open>The all-zero 4 by 4 matrix with \<open>minwr_per_seg = 1\<close>.\<close>

theorem find_plecs_empty_witness:
  "find_plecs_stages (\<lambda>bs i. bs ! i) (replicate 4 (replicate 4 0)) 1 (1 / 2) 1 True 10 (2 * pi)
     False True
     = Some (\<lparr>topol_N = 4, topol_L = 4, topol_disc_len = 1, topol_plecs = [],
               topol_branches = [], topol_tracers = [], topol_wr = 0, topol_num_plecs = 0,
               topol_num_branches = 0, topol_num_tracers = 0, topol_no_overlap = True,
               topol_wm = None\<rparr>, [])"
proof -
  have sq: "\<forall>row \<in> set (replicate 4 (replicate 4 (0::real))).
              length row = length (replicate 4 (replicate 4 (0::real)))"
    by simp
  have dl: "(1::real) \<noteq> 0" by simp
  have om: "2 * pi \<noteq> 0" by simp
  have small: "\<forall>row \<in> set (sign_normalise (replicate 4 (replicate 4 0))).
      \<not> sum_list row > minwr_per_seg_of 1 1 (2 * pi)"
    by (simp add: sign_normalise_def minwr_per_seg_example sum_list_replicate)
  have tw: "total_writhe (replicate 4 (replicate 4 0)) = 0"
    by (simp add: total_writhe_def sum_list_replicate)
  from find_plecs_empty [OF sq dl om small, of "\<lambda>bs i. bs ! i" "1 / 2" True 10 False True] tw
  show ?thesis by simp
qed

subsection \<open>Negating the matrix\<close>

lemma sum_list_uminus: "sum_list (map uminus xs) = - sum_list (xs :: real list)"
  by (induction xs) auto

lemma py_slice_map: "py_slice lo hi (map f xs) = map f (py_slice lo hi xs)"
  by (simp add: py_slice_def Let_def take_map drop_map)

lemma block_sum_neg: "block_sum (map (map uminus) WM) r0 r1 c0 c1 = - block_sum WM r0 r1 c0 c1"
proof -
  have "sum_list (map (\<lambda>row. sum_list (py_slice c0 c1 (map uminus row))) rows)
          = - sum_list (map (\<lambda>row. sum_list (py_slice c0 c1 row)) rows)" for rows :: matrix
    by (induction rows) (auto simp: py_slice_map sum_list_uminus)
  then show ?thesis
    by (simp add: block_sum_def py_slice_map o_def)
qed

lemma branch_writhe_neg: "branch_writhe (map (map uminus) WM) b = - branch_writhe WM b"
  by (simp add: branch_writhe_def cal_branch_writhe_def block_sum_neg)

lemma total_writhe_neg: "total_writhe (map (map uminus) WM) = - total_writhe WM"
  by (induction WM) (auto simp: total_writhe_def sum_list_uminus)

lemma mean_entry_neg: "mean_entry (map (map uminus) WM) = - mean_entry WM"
proof -
  have a: "sum_list (map sum_list (map (map uminus) WM)) = - sum_list (map sum_list WM)"
    by (induction WM) (auto simp: sum_list_uminus)
  have b: "map length (map (map uminus) WM) = map length WM"
    by (induction WM) auto
  show ?thesis
    unfolding mean_entry_def a b by simp
qed

lemma sign_normalise_neg: "sign_normalise (map (map uminus) WM) = sign_normalise WM"
  by (simp add: sign_normalise_def mean_entry_neg o_def sgn_minus)

lemma make_branchdict_neg:
  "list_all2 (\<lambda>b' b. branchdict_id b' = branchdict_id b \<and> branchdict_x1 b' = branchdict_x1 b
       \<and> branchdict_x2 b' = branchdict_x2 b \<and> branchdict_y1 b' = branchdict_y1 b
       \<and> branchdict_y2 b' = branchdict_y2 b \<and> branchdict_wr b' = - branchdict_wr b
       \<and> branchdict_wr_down b' = - branchdict_wr_down b)
     (map (make_branchdict (map (map uminus) WM)) ibs) (map (make_branchdict WM) ibs)"
  by (induction ibs)
     (auto simp: make_branchdict_def branch_writhe_neg cal_branch_writhe_def block_sum_neg)

text \<open>
  Claim C10. Negating the whole matrix leaves the sign-normalised matrix as it is, and
  with it the candidate pairs, the branches and tracers found, and every field of the
  result except those computed from the raw matrix: the total writhe and the \<open>wr\<close> and
  \<open>wr_down\<close> of every branch change sign (and so does the attached matrix, when it is
  included). The run fails on the negated matrix exactly when it fails on the matrix.
\<close>

theorem find_plecs_sign_flip:
  "sign_normalise (map (map uminus) WM) = sign_normalise WM \<and>
   find_pairs (sign_normalise (map (map uminus) WM)) m = find_pairs (sign_normalise WM) m \<and>
   find_branches (sign_normalise (map (map uminus) WM)) min_writhe_density disc_len connect_dist om0
     = find_branches (sign_normalise WM) min_writhe_density disc_len connect_dist om0 \<and>
   rel_option
     (\<lambda>t' t. topol_N t' = topol_N t \<and> topol_L t' = topol_L t
        \<and> topol_disc_len t' = topol_disc_len t
        \<and> topol_plecs t' = topol_plecs t
        \<and> list_all2 (\<lambda>b' b. branchdict_id b' = branchdict_id b
               \<and> branchdict_x1 b' = branchdict_x1 b \<and> branchdict_x2 b' = branchdict_x2 b
               \<and> branchdict_y1 b' = branchdict_y1 b \<and> branchdict_y2 b' = branchdict_y2 b
               \<and> branchdict_wr b' = - branchdict_wr b
               \<and> branchdict_wr_down b' = - branchdict_wr_down b)
             (topol_branches t') (topol_branches t)
        \<and> topol_tracers t' = topol_tracers t
        \<and> topol_wr t' = - topol_wr t
        \<and> topol_num_plecs t' = topol_num_plecs t
        \<and> topol_num_branches t' = topol_num_branches t
        \<and> topol_num_tracers t' = topol_num_tracers t
        \<and> topol_no_overlap t' = topol_no_overlap t
        \<and> topol_wm t' = map_option (map (map uminus)) (topol_wm t))
     (find_plecs ub (map (map uminus) WM) min_writhe_density plec_min_writhe disc_len no_overlap
        connect_dist om0 include_wm unify_branch_pieces)
     (find_plecs ub WM min_writhe_density plec_min_writhe disc_len no_overlap
        connect_dist om0 include_wm unify_branch_pieces)"
proof -
  have "rel_option
     (\<lambda>t' t. topol_N t' = topol_N t \<and> topol_L t' = topol_L t
        \<and> topol_disc_len t' = topol_disc_len t
        \<and> topol_plecs t' = topol_plecs t
        \<and> list_all2 (\<lambda>b' b. branchdict_id b' = branchdict_id b
               \<and> branchdict_x1 b' = branchdict_x1 b \<and> branchdict_x2 b' = branchdict_x2 b
               \<and> branchdict_y1 b' = branchdict_y1 b \<and> branchdict_y2 b' = branchdict_y2 b
               \<and> branchdict_wr b' = - branchdict_wr b
               \<and> branchdict_wr_down b' = - branchdict_wr_down b)
             (topol_branches t') (topol_branches t)
        \<and> topol_tracers t' = topol_tracers t
        \<and> topol_wr t' = - topol_wr t
        \<and> topol_num_plecs t' = topol_num_plecs t
        \<and> topol_num_branches t' = topol_num_branches t
        \<and> topol_num_tracers t' = topol_num_tracers t
        \<and> topol_no_overlap t' = topol_no_overlap t
        \<and> topol_wm t' = map_option (map (map uminus)) (topol_wm t))
     (find_plecs ub (map (map uminus) WM) min_writhe_density plec_min_writhe disc_len no_overlap
        connect_dist om0 include_wm unify_branch_pieces)
     (find_plecs ub WM min_writhe_density plec_min_writhe disc_len no_overlap
        connect_dist om0 include_wm unify_branch_pieces)"
    unfolding find_plecs_def find_plecs_stages_def sign_normalise_neg Let_def
    by (auto simp: total_writhe_neg make_branchdict_neg split: option.splits prod.splits)
  then show ?thesis
    by (simp add: sign_normalise_neg)
qed

section \<open>Properties of the plectoneme definer\<close>

subsection \<open>The overlap resolver always returns\<close>

lemma remove_branchpair_overlap_total:
  "\<exists>r. remove_branchpair_overlap WM x1 x2 l1 l2 = Some r"
proof (cases "snd l1 < fst l2 \<or> snd l2 < fst l1")
  case True
  then show ?thesis by (simp add: remove_branchpair_overlap_def)
next
  case False
  from overlap_case_selected [OF False] obtain s rv sc
    where "select_case l1 l2 = (Some s, rv, sc)"
    by (cases "select_case l1 l2") auto
  with False show ?thesis
    by (cases "truncate_pair WM sc x2 l2 x1 l1"; cases "truncate_pair WM sc x1 l1 x2 l2")
       (simp add: remove_branchpair_overlap_def)
qed

lemma resolve_pair_total: "\<exists>r. resolve_pair WM bi bj = Some r"
proof -
  obtain a1 a2 where a: "remove_branchpair_overlap WM (xlim bi) (xlim bj) (ylim bi) (ylim bj)
      = Some (a1, a2)"
    using remove_branchpair_overlap_total by (metis surj_pair)
  obtain b1 b2 where b: "remove_branchpair_overlap WM a1 (xlim bj) (xlim bi) a2 = Some (b1, b2)"
    using remove_branchpair_overlap_total by (metis surj_pair)
  obtain c1 c2 where c: "remove_branchpair_overlap WM b1 b2 a1 (xlim bj) = Some (c1, c2)"
    using remove_branchpair_overlap_total by (metis surj_pair)
  obtain d1 d2 where d: "remove_branchpair_overlap WM c1 b2 b1 c2 = Some (d1, d2)"
    using remove_branchpair_overlap_total by (metis surj_pair)
  show ?thesis
    by (simp add: resolve_pair_def a b c d)
qed

lemma overlap_inner_total: "\<exists>bs'. overlap_inner WM i js bs = Some bs'"
proof (induction js arbitrary: bs)
  case Nil
  then show ?case by simp
next
  case (Cons j js)
  obtain bi bj where "resolve_pair WM (bs ! i) (bs ! j) = Some (bi, bj)"
    using resolve_pair_total by (metis surj_pair)
  with Cons.IH show ?case by simp
qed

lemma overlap_outer_total: "\<exists>bs'. overlap_outer WM is bs = Some bs'"
proof (induction "is" arbitrary: bs)
  case Nil
  then show ?case by simp
next
  case (Cons i "is")
  obtain bs1 where "overlap_inner WM i [Suc i ..< length bs] bs = Some bs1"
    using overlap_inner_total by blast
  with Cons.IH show ?case by simp
qed

lemma remove_branch_overlap_total: "\<exists>bs'. remove_branch_overlap WM bs = Some bs'"
proof -
  obtain bs1 where "overlap_outer WM [0 ..< length bs - 1] bs = Some bs1"
    using overlap_outer_total by blast
  then show ?thesis by (simp add: remove_branch_overlap_def)
qed

subsection \<open>The loop over the candidates\<close>



lemma plec_loop_member:
  assumes "distinct (map fst ics)"
  shows "p \<in> set (plec_loop WM mwd mw dl om0 ics) \<longleftrightarrow>
         (\<exists>i c. (i, c) \<in> set ics
            \<and> real_of_int (X2 c - X1 c + 1) * dl > 0
            \<and> wr2dens_conv_fac om0 * branch_writhe WM c / (real_of_int (X2 c - X1 c + 1) * dl) \<ge> mwd
            \<and> branch_writhe WM c \<ge> mw
            \<and> p = \<lparr>id1 = X1 c, id2 = X2 c,
                    wrdens = wr2dens_conv_fac om0 * branch_writhe WM c
                               / (real_of_int (X2 c - X1 c + 1) * dl),
                    wr = branch_writhe WM c, num_segs = X2 c - X1 c + 1,
                    wr_tot = total_writhe WM, cand_id = i\<rparr>)"
  using assms
proof (induction ics)
  case Nil
  then show ?case by simp
next
  case (Cons ic ics)
  obtain i c where ic: "ic = (i, c)" by (cases ic)
  from Cons.prems have d: "distinct (map fst ics)" by simp
  show ?case
    unfolding ic using Cons.IH [OF d]
    by (auto simp: Let_def not_le not_less)
qed



text \<open>
  The loop of \<open>_define_plecs\<close> does not skip a candidate that carries the sentinel: its
  length is taken from \<open>x1 = -1\<close>, its writhe is the sum over an empty block, and it goes
  through the same test. On the same matrix the candidate \<open>[4, 8]\<close> of the composite
  \<open>(4, 7, 7, 8)\<close> lies inside the candidate \<open>[1, 10]\<close> of \<open>(1, 2, 5, 10)\<close>; the overlap
  removal empties and flags it, and with both thresholds zero it has a record, with
  \<open>id1 = -1\<close> and \<open>id2 = 3\<close>.
\<close>

lemma define_plecs_flagged_candidate:
  "remove_branch_overlap
        ((replicate 12 (replicate 12 0))[2 := (replicate 12 0)[5 := 3], 5 := (replicate 12 0)[2 := 3],
           7 := (replicate 12 0)[9 := 1], 9 := (replicate 12 0)[7 := 1]])
        (map candidate_plec [\<lparr>X1 = 1, X2 = 2, Y1 = 5, Y2 = 10\<rparr>, \<lparr>X1 = 4, X2 = 7, Y1 = 7, Y2 = 8\<rparr>])
     = Some [\<lparr>X1 = 1, X2 = 10, Y1 = 1, Y2 = 10\<rparr>, \<lparr>X1 = - 1, X2 = 3, Y1 = 4, Y2 = 3\<rparr>] \<and>
   map (\<lambda>p. (cand_id p, id1 p, id2 p, num_segs p, wr p))
     (the (define_plecs
        ((replicate 12 (replicate 12 0))[2 := (replicate 12 0)[5 := 3], 5 := (replicate 12 0)[2 := 3],
           7 := (replicate 12 0)[9 := 1], 9 := (replicate 12 0)[7 := 1]])
        [\<lparr>X1 = 1, X2 = 2, Y1 = 5, Y2 = 10\<rparr>, \<lparr>X1 = 4, X2 = 7, Y1 = 7, Y2 = 8\<rparr>]
        0 0 1 (2 * pi)))
     = [(0, 1, 10, 10, 8), (1, - 1, 3, 5, 0)]"
proof -
  define W :: matrix where
    "W = (replicate 12 (replicate 12 0))[2 := (replicate 12 0)[5 := 3], 5 := (replicate 12 0)[2 := 3],
           7 := (replicate 12 0)[9 := 1], 9 := (replicate 12 0)[7 := 1]]"
  define cbs where "cbs = [\<lparr>X1 = 1, X2 = 2, Y1 = 5, Y2 = 10\<rparr>, \<lparr>X1 = 4, X2 = 7, Y1 = 7, Y2 = (8::int)\<rparr>]"
  have rbo: "remove_branch_overlap W (map candidate_plec cbs)
               = Some [\<lparr>X1 = 1, X2 = 10, Y1 = 1, Y2 = 10\<rparr>, \<lparr>X1 = - 1, X2 = 3, Y1 = 4, Y2 = 3\<rparr>]"
    unfolding W_def cbs_def by code_simp
  have w0: "branch_writhe W \<lparr>X1 = 1, X2 = 10, Y1 = 1, Y2 = 10\<rparr> = 8"
    unfolding W_def by code_simp
  have w1: "branch_writhe W \<lparr>X1 = - 1, X2 = 3, Y1 = 4, Y2 = 3\<rparr> = 0"
    unfolding W_def by code_simp
  have en: "enumerate 0 [\<lparr>X1 = 1, X2 = 10, Y1 = 1, Y2 = 10\<rparr>, \<lparr>X1 = - 1, X2 = 3, Y1 = 4, Y2 = (3::int)\<rparr>]
      = [(0, \<lparr>X1 = 1, X2 = 10, Y1 = 1, Y2 = 10\<rparr>), (Suc 0, \<lparr>X1 = - 1, X2 = 3, Y1 = 4, Y2 = 3\<rparr>)]"
    by simp
  have "map (\<lambda>p. (cand_id p, id1 p, id2 p, num_segs p, wr p))
          (the (define_plecs W cbs 0 0 1 (2 * pi))) = [(0, 1, 10, 10, 8), (1, - 1, 3, 5, 0)]"
    by (simp add: define_plecs_def rbo en w0 w1 wr2dens_conv_fac_def Let_def)
  with rbo show ?thesis
    unfolding W_def cbs_def by simp
qed

section \<open>The overlap resolver on its own output\<close>

lemma shrinks_refl [simp]: "shrinks l l"
  by (simp add: shrinks_def)

lemma shrinks_trans: "shrinks l2 l1 \<Longrightarrow> shrinks l1 l0 \<Longrightarrow> shrinks l2 l0"
  by (auto simp: shrinks_def valid_lim_def)

lemma branch_shrinks_refl [simp]: "branch_shrinks b b"
  by (simp add: branch_shrinks_def)

lemma branch_shrinks_trans:
  "branch_shrinks b2 b1 \<Longrightarrow> branch_shrinks b1 b0 \<Longrightarrow> branch_shrinks b2 b0"
  unfolding branch_shrinks_def by (blast intro: shrinks_trans)

lemma shrinks_valid: "shrinks l' l \<Longrightarrow> valid_lim l' \<Longrightarrow> valid_lim l"
  by (auto simp: shrinks_def valid_lim_def)

lemma shrinks_disjoint:
  "shrinks l1' l1 \<Longrightarrow> shrinks l2' l2 \<Longrightarrow> valid_lim l1' \<Longrightarrow> valid_lim l2' \<Longrightarrow>
   disjoint_lims l1 l2 \<Longrightarrow> disjoint_lims l1' l2'"
  by (auto simp: shrinks_def valid_lim_def disjoint_lims_def)

lemma pair_overlap_result:
  assumes "remove_branchpair_overlap WM x1 x2 l1 l2 = Some (l1', l2')"
  shows "shrinks l1' l1 \<and> shrinks l2' l2 \<and>
         (disjoint_lims l1' l2' \<or> \<not> valid_lim l1' \<or> \<not> valid_lim l2')"
  using assms
  by (auto simp: remove_branchpair_overlap_def select_case_def truncate_pair_def Let_def
        shrinks_def valid_lim_def disjoint_lims_def split: if_splits)

lemma pair_overlap_disjoint:
  "disjoint_lims l1 l2 \<Longrightarrow> remove_branchpair_overlap WM x1 x2 l1 l2 = Some (l1, l2)"
  by (simp add: remove_branchpair_overlap_def disjoint_lims_def)


lemma mk_branch_lims [simp]:
  "xlim (mk_branch xl yl) = xl" "ylim (mk_branch xl yl) = yl"
  by (simp_all add: mk_branch_def xlim_def ylim_def)

lemma mk_branch_id [simp]: "mk_branch (xlim b) (ylim b) = (b :: branch)"
  by (simp add: mk_branch_def xlim_def ylim_def)

lemma resolve_pair_result:
  assumes "resolve_pair WM bi bj = Some (bi', bj')"
  shows "branch_shrinks bi' bi \<and> branch_shrinks bj' bj \<and> settled bi' bj'"
proof -
  from assms obtain a1 a2 b1 b2 c1 c2 d1 d2 where
    a: "remove_branchpair_overlap WM (xlim bi) (xlim bj) (ylim bi) (ylim bj) = Some (a1, a2)" and
    b: "remove_branchpair_overlap WM a1 (xlim bj) (xlim bi) a2 = Some (b1, b2)" and
    c: "remove_branchpair_overlap WM b1 b2 a1 (xlim bj) = Some (c1, c2)" and
    d: "remove_branchpair_overlap WM c1 b2 b1 c2 = Some (d1, d2)" and
    r: "bi' = mk_branch d1 c1" "bj' = mk_branch d2 b2"
    by (auto simp: resolve_pair_def split: option.splits prod.splits)
  note ra = pair_overlap_result [OF a] and rb = pair_overlap_result [OF b]
    and rc = pair_overlap_result [OF c] and rd = pair_overlap_result [OF d]
  have yi: "shrinks c1 (ylim bi)" using ra rc by (blast intro: shrinks_trans)
  have xi: "shrinks d1 (xlim bi)" using rb rd by (blast intro: shrinks_trans)
  have yj: "shrinks b2 (ylim bj)" using ra rb by (blast intro: shrinks_trans)
  have xj: "shrinks d2 (xlim bj)" using rc rd by (blast intro: shrinks_trans)
  have yy: "valid_lim c1 \<Longrightarrow> valid_lim b2 \<Longrightarrow> disjoint_lims c1 b2"
    using ra rb rc by (meson shrinks_disjoint shrinks_valid shrinks_refl)
  have xy: "valid_lim d1 \<Longrightarrow> valid_lim b2 \<Longrightarrow> disjoint_lims d1 b2"
    using rb rd by (meson shrinks_disjoint shrinks_valid shrinks_refl)
  have yx: "valid_lim c1 \<Longrightarrow> valid_lim d2 \<Longrightarrow> disjoint_lims c1 d2"
    using rc rd by (meson shrinks_disjoint shrinks_valid shrinks_refl)
  have xx: "valid_lim d1 \<Longrightarrow> valid_lim d2 \<Longrightarrow> disjoint_lims d1 d2"
    using rd by blast
  show ?thesis
    using yi xi yj xj yy xy yx xx
    by (simp add: r branch_shrinks_def settled_def live_def separate_def)
qed

lemma resolve_pair_separate:
  "separate bi bj \<Longrightarrow> resolve_pair WM bi bj = Some (bi, bj)"
  by (simp add: resolve_pair_def separate_def pair_overlap_disjoint)

lemma settled_shrinks:
  assumes "settled bi bj" "branch_shrinks bi' bi" "branch_shrinks bj' bj"
  shows "settled bi' bj'"
  using assms unfolding settled_def live_def separate_def branch_shrinks_def
  by (meson shrinks_disjoint shrinks_valid)

lemma not_live_settled: "\<not> live bi \<or> \<not> live bj \<Longrightarrow> settled bi bj"
  by (auto simp: settled_def)

lemma branch_shrinks_live: "branch_shrinks b' b \<Longrightarrow> live b' \<Longrightarrow> live b"
  unfolding branch_shrinks_def live_def by (blast intro: shrinks_valid)


lemma overlap_inner_result:
  assumes "overlap_inner WM i js bs = Some bs'" and "i < length bs"
    and "\<forall>j \<in> set js. j < length bs \<and> j \<noteq> i"
  shows "length bs' = length bs \<and> (\<forall>k < length bs. branch_shrinks (bs' ! k) (bs ! k)) \<and>
         (\<forall>j \<in> set js. settled (bs' ! i) (bs' ! j))"
  using assms
proof (induction js arbitrary: bs)
  case Nil
  then show ?case by simp
next
  case (Cons j js)
  from Cons.prems have j: "j < length bs" "j \<noteq> i" and i: "i < length bs"
    and js: "\<forall>j \<in> set js. j < length bs \<and> j \<noteq> i"
    by auto
  show ?case
  proof (cases "Y2 (bs ! j) < Y1 (bs ! j)")
    case True
    with Cons.prems have run: "overlap_inner WM i js bs = Some bs'"
      by simp
    note ih = Cons.IH [OF run i js]
    from True have "\<not> live (bs ! j)"
      by (simp add: live_def valid_lim_def ylim_def)
    with ih j have "\<not> live (bs' ! j)"
      using branch_shrinks_live by blast
    then have "settled (bs' ! i) (bs' ! j)"
      by (simp add: not_live_settled)
    with ih show ?thesis by simp
  next
    case False
    with Cons.prems obtain bi bj where
      rp: "resolve_pair WM (bs ! i) (bs ! j) = Some (bi, bj)" and
      run: "overlap_inner WM i js (bs[i := bi, j := bj]) = Some bs'"
      by (auto split: option.splits)
    let ?bs1 = "bs[i := bi, j := bj]"
    note r = resolve_pair_result [OF rp]
    have i1: "i < length ?bs1" and js1: "\<forall>j \<in> set js. j < length ?bs1 \<and> j \<noteq> i"
      using i js by simp_all
    note ih = Cons.IH [OF run i1 js1]
    have nth1: "?bs1 ! i = bi" "?bs1 ! j = bj"
      using i j by simp_all
    have step: "branch_shrinks (?bs1 ! k) (bs ! k)" if "k < length bs" for k
      using r that by (cases "k = j"; cases "k = i") simp_all
    have sh: "branch_shrinks (bs' ! k) (bs ! k)" if "k < length bs" for k
      using ih that step [OF that] by (auto intro: branch_shrinks_trans)
    have "settled (bs' ! i) (bs' ! j)"
    proof (rule settled_shrinks)
      show "settled bi bj" using r by simp
      show "branch_shrinks (bs' ! i) bi" using ih i nth1 by (metis length_list_update)
      show "branch_shrinks (bs' ! j) bj" using ih j nth1 by (metis length_list_update)
    qed
    with ih sh show ?thesis by simp
  qed
qed

lemma overlap_outer_result:
  assumes "overlap_outer WM is bs = Some bs'" and "\<forall>i \<in> set is. i < length bs"
  shows "length bs' = length bs \<and> (\<forall>k < length bs. branch_shrinks (bs' ! k) (bs ! k)) \<and>
         (\<forall>i \<in> set is. \<forall>j. i < j \<and> j < length bs \<longrightarrow> settled (bs' ! i) (bs' ! j))"
  using assms
proof (induction "is" arbitrary: bs)
  case Nil
  then show ?case by simp
next
  case (Cons i "is")
  from Cons.prems have i: "i < length bs" and rest: "\<forall>i \<in> set is. i < length bs"
    by auto
  show ?case
  proof (cases "Y2 (bs ! i) < Y1 (bs ! i)")
    case True
    with Cons.prems have run: "overlap_outer WM is bs = Some bs'"
      by simp
    note ih = Cons.IH [OF run rest]
    from True have "\<not> live (bs ! i)"
      by (simp add: live_def valid_lim_def ylim_def)
    with ih i have "\<not> live (bs' ! i)"
      using branch_shrinks_live by blast
    then have "\<forall>j. settled (bs' ! i) (bs' ! j)"
      by (simp add: not_live_settled)
    with ih show ?thesis by simp
  next
    case False
    with Cons.prems obtain bs1 where
      inner: "overlap_inner WM i [Suc i ..< length bs] bs = Some bs1" and
      run: "overlap_outer WM is bs1 = Some bs'"
      by (auto split: option.splits)
    have "\<forall>j \<in> set [Suc i ..< length bs]. j < length bs \<and> j \<noteq> i"
      by auto
    note r1 = overlap_inner_result [OF inner i this]
    have rest1: "\<forall>i \<in> set is. i < length bs1"
      using rest r1 by simp
    note ih = Cons.IH [OF run rest1]
    have sh: "branch_shrinks (bs' ! k) (bs ! k)" if "k < length bs" for k
      using ih r1 that by (auto intro: branch_shrinks_trans)
    have "settled (bs' ! i) (bs' ! j)" if "i < j" "j < length bs" for j
    proof (rule settled_shrinks)
      show "settled (bs1 ! i) (bs1 ! j)" using r1 that by simp
      show "branch_shrinks (bs' ! i) (bs1 ! i)" using ih r1 i by simp
      show "branch_shrinks (bs' ! j) (bs1 ! j)" using ih r1 that by simp
    qed
    with ih r1 sh show ?thesis by simp
  qed
qed

lemma overlap_inner_id:
  assumes "i < length bs"
    and "\<forall>j \<in> set js. j < length bs \<and> separate (bs ! i) (bs ! j)"
  shows "overlap_inner WM i js bs = Some bs"
  using assms
  by (induction js) (auto simp: resolve_pair_separate)

lemma overlap_outer_id:
  assumes "\<forall>i \<in> set is. i < length bs"
    and "\<forall>i \<in> set is. \<forall>j. i < j \<and> j < length bs \<longrightarrow> separate (bs ! i) (bs ! j)"
  shows "overlap_outer WM is bs = Some bs"
  using assms
proof (induction "is")
  case Nil
  then show ?case by simp
next
  case (Cons i "is")
  then have "overlap_inner WM i [Suc i ..< length bs] bs = Some bs"
    by (intro overlap_inner_id) auto
  with Cons show ?case by simp
qed

lemma flag_branch_live: "X1 (flag_branch b) \<noteq> - 1 \<Longrightarrow> live b \<and> flag_branch b = b"
  by (auto simp: flag_branch_def live_def valid_lim_def xlim_def ylim_def split: if_splits)

lemma flag_branch_id: "live b \<Longrightarrow> flag_branch b = b"
  by (auto simp: flag_branch_def live_def valid_lim_def xlim_def ylim_def)

lemma remove_branch_overlap_separate:
  assumes "sorted_wrt separate bs" and "\<forall>b \<in> set bs. live b"
  shows "remove_branch_overlap WM bs = Some bs"
proof -
  have "overlap_outer WM [0 ..< length bs - 1] bs = Some bs"
    using assms(1) by (intro overlap_outer_id) (auto simp: sorted_wrt_iff_nth_less)
  moreover have "map flag_branch bs = bs"
    using assms(2) by (simp add: map_idI flag_branch_id)
  ultimately show ?thesis
    by (simp add: remove_branch_overlap_def)
qed

lemma remove_branch_overlap_survivors:
  assumes "remove_branch_overlap WM bs = Some out"
  shows "sorted_wrt separate (filter (\<lambda>b. X1 b \<noteq> - 1) out) \<and>
         (\<forall>b \<in> set (filter (\<lambda>b. X1 b \<noteq> - 1) out). live b)"
proof -
  from assms obtain bs' where
    outer: "overlap_outer WM [0 ..< length bs - 1] bs = Some bs'" and
    out: "out = map flag_branch bs'"
    by (auto simp: remove_branch_overlap_def split: option.splits)
  have "\<forall>i \<in> set [0 ..< length bs - 1]. i < length bs"
    by auto
  note r = overlap_outer_result [OF outer this]
  have "sorted_wrt settled bs'"
    using r by (auto simp: sorted_wrt_iff_nth_less)
  then have s: "sorted_wrt settled (filter (\<lambda>b. X1 (flag_branch b) \<noteq> - 1) bs')"
    by (rule sorted_wrt_filter)
  have keep: "filter (\<lambda>b. X1 b \<noteq> - 1) out = filter (\<lambda>b. X1 (flag_branch b) \<noteq> - 1) bs'"
    unfolding out filter_map o_def
    by (rule map_idI) (simp add: flag_branch_live)
  have lv: "\<forall>b \<in> set (filter (\<lambda>b. X1 (flag_branch b) \<noteq> - 1) bs'). live b"
    by (simp add: flag_branch_live)
  have "sorted_wrt separate (filter (\<lambda>b. X1 (flag_branch b) \<noteq> - 1) bs')"
  proof (rule sorted_wrt_mono_rel [OF _ s])
    fix x y
    assume "x \<in> set (filter (\<lambda>b. X1 (flag_branch b) \<noteq> - 1) bs')"
      and "y \<in> set (filter (\<lambda>b. X1 (flag_branch b) \<noteq> - 1) bs')" and "settled x y"
    with lv show "separate x y"
      by (simp add: settled_def)
  qed
  with lv show ?thesis
    by (simp only: keep)
qed

lemma remove_flagged_branches_fst:
  "length ts = length bs \<Longrightarrow> fst (remove_flagged_branches bs ts) = filter (\<lambda>b. X1 b \<noteq> - 1) bs"
proof (induction bs arbitrary: ts)
  case Nil
  then show ?case by (simp add: remove_flagged_branches_def)
next
  case (Cons b bs)
  then obtain t ts' where ts: "ts = t # ts'" "length ts' = length bs"
    by (cases ts) auto
  with Cons.IH [of ts'] show ?case
    by (simp add: remove_flagged_branches_def Let_def)
qed


text \<open>
  Claim C1, as amended. The resolver always returns, and applied to its own output
  after the sentinel-flagged branches have been removed from it, as \<open>find_plecs\<close> does
  between the passes, it changes nothing.
\<close>

theorem overlap_idempotent_on_survivors:
  "\<exists>out. remove_branch_overlap WM bs = Some out \<and>
     remove_branch_overlap WM (filter (\<lambda>b. X1 b \<noteq> - 1) out)
       = Some (filter (\<lambda>b. X1 b \<noteq> - 1) out) \<and>
     (\<forall>ts. length ts = length out \<longrightarrow>
        remove_branch_overlap WM (fst (remove_flagged_branches out ts))
          = Some (fst (remove_flagged_branches out ts)))"
proof -
  obtain out where out: "remove_branch_overlap WM bs = Some out"
    using remove_branch_overlap_total by blast
  from remove_branch_overlap_survivors [OF out]
  have "remove_branch_overlap WM (filter (\<lambda>b. X1 b \<noteq> - 1) out)
          = Some (filter (\<lambda>b. X1 b \<noteq> - 1) out)"
    by (intro remove_branch_overlap_separate) simp_all
  with out show ?thesis
    by (auto simp: remove_flagged_branches_fst)
qed

text \<open>
  Two branches with overlapping y-intervals on the all-zero matrix: the first pass cuts
  the first branch, both survive, and the second pass returns them as they are.
\<close>

theorem overlap_idempotent_on_survivors_witness:
  "remove_branch_overlap (replicate 16 (replicate 16 0))
     [\<lparr>X1 = 10, X2 = 11, Y1 = 1, Y2 = 5\<rparr>, \<lparr>X1 = 13, X2 = 14, Y1 = 3, Y2 = 8\<rparr>]
     = Some [\<lparr>X1 = 10, X2 = 11, Y1 = 1, Y2 = 2\<rparr>, \<lparr>X1 = 13, X2 = 14, Y1 = 3, Y2 = 8\<rparr>] \<and>
   remove_branch_overlap (replicate 16 (replicate 16 0))
     (fst (remove_flagged_branches
        [\<lparr>X1 = 10, X2 = 11, Y1 = 1, Y2 = 2\<rparr>, \<lparr>X1 = 13, X2 = 14, Y1 = 3, Y2 = 8\<rparr>] [2::nat, 3]))
     = Some [\<lparr>X1 = 10, X2 = 11, Y1 = 1, Y2 = 2\<rparr>, \<lparr>X1 = 13, X2 = 14, Y1 = 3, Y2 = 8\<rparr>]"
proof -
  have first: "remove_branch_overlap (replicate 16 (replicate 16 0))
     [\<lparr>X1 = 10, X2 = 11, Y1 = 1, Y2 = 5\<rparr>, \<lparr>X1 = 13, X2 = 14, Y1 = 3, Y2 = 8\<rparr>]
     = Some [\<lparr>X1 = 10, X2 = 11, Y1 = 1, Y2 = 2\<rparr>, \<lparr>X1 = 13, X2 = 14, Y1 = 3, Y2 = 8\<rparr>]"
    by code_simp
  from overlap_idempotent_on_survivors [of "replicate 16 (replicate 16 0)"
      "[\<lparr>X1 = 10, X2 = 11, Y1 = 1, Y2 = 5\<rparr>, \<lparr>X1 = 13, X2 = 14, Y1 = 3, Y2 = 8\<rparr>]"]
  obtain out where
    o: "remove_branch_overlap (replicate 16 (replicate 16 0))
          [\<lparr>X1 = 10, X2 = 11, Y1 = 1, Y2 = 5\<rparr>, \<lparr>X1 = 13, X2 = 14, Y1 = 3, Y2 = 8\<rparr>] = Some out"
    and again: "\<forall>ts :: nat list. length ts = length out \<longrightarrow>
        remove_branch_overlap (replicate 16 (replicate 16 0)) (fst (remove_flagged_branches out ts))
          = Some (fst (remove_flagged_branches out ts))"
    by blast
  from o first have out: "out = [\<lparr>X1 = 10, X2 = 11, Y1 = 1, Y2 = 2\<rparr>, \<lparr>X1 = 13, X2 = 14, Y1 = 3, Y2 = 8\<rparr>]"
    by simp
  from again [THEN spec, of "[2, 3]"] have
    "remove_branch_overlap (replicate 16 (replicate 16 0)) (fst (remove_flagged_branches out [2::nat, 3]))
       = Some (fst (remove_flagged_branches out [2::nat, 3]))"
    by (simp add: out)
  moreover have "fst (remove_flagged_branches out [2::nat, 3]) = out"
    by (simp add: out remove_flagged_branches_def)
  ultimately show ?thesis
    using first by (simp add: out)
qed

text \<open>
  Claim C1 as stated fails on flagged branches. On the all-zero matrix the x-interval
  \<open>[2, 3]\<close> of the second branch lies strictly inside \<open>[1, 5]\<close>; the first pass empties it
  to \<open>[2, 1]\<close> and writes the sentinel, which leaves \<open>[-1, 1]\<close>. For the second pass this
  is an interval that overlaps \<open>[1, 5]\<close>, and the flagged branch is cut again, to
  \<open>[-1, 0]\<close>.
\<close>

theorem overlap_second_pass_counterexample:
  "remove_branch_overlap (replicate 24 (replicate 24 0))
     [\<lparr>X1 = 1, X2 = 5, Y1 = 10, Y2 = 12\<rparr>, \<lparr>X1 = 2, X2 = 3, Y1 = 20, Y2 = 22\<rparr>]
     = Some [\<lparr>X1 = 1, X2 = 5, Y1 = 10, Y2 = 12\<rparr>, \<lparr>X1 = - 1, X2 = 1, Y1 = 20, Y2 = 22\<rparr>] \<and>
   remove_branch_overlap (replicate 24 (replicate 24 0))
     [\<lparr>X1 = 1, X2 = 5, Y1 = 10, Y2 = 12\<rparr>, \<lparr>X1 = - 1, X2 = 1, Y1 = 20, Y2 = 22\<rparr>]
     = Some [\<lparr>X1 = 1, X2 = 5, Y1 = 10, Y2 = 12\<rparr>, \<lparr>X1 = - 1, X2 = 0, Y1 = 20, Y2 = 22\<rparr>]"
  by code_simp

section \<open>Boundary exclusion\<close>

subsection \<open>Pairs\<close>

lemma argmax_aux_spec:
  assumes "best < length pre" and "k = length pre" and "pre ! best = v"
    and "\<forall>x \<in> set pre. x \<le> v"
  shows "argmax_aux xs k best v < length (pre @ xs) \<and>
         (\<forall>x \<in> set (pre @ xs). x \<le> (pre @ xs) ! argmax_aux xs k best v)"
  using assms
proof (induction xs arbitrary: pre k best v)
  case Nil
  then show ?case by simp
next
  case (Cons x xs)
  show ?case
  proof (cases "x > v")
    case True
    have "argmax_aux xs (Suc k) k x < length ((pre @ [x]) @ xs) \<and>
          (\<forall>y \<in> set ((pre @ [x]) @ xs). y \<le> ((pre @ [x]) @ xs) ! argmax_aux xs (Suc k) k x)"
      using Cons.prems True by (intro Cons.IH) (auto simp: nth_append)
    with True show ?thesis by simp
  next
    case False
    have "argmax_aux xs (Suc k) best v < length ((pre @ [x]) @ xs) \<and>
          (\<forall>y \<in> set ((pre @ [x]) @ xs). y \<le> ((pre @ [x]) @ xs) ! argmax_aux xs (Suc k) best v)"
      using Cons.prems False by (intro Cons.IH) (auto simp: nth_append)
    with False show ?thesis by simp
  qed
qed

lemma argmax_spec:
  assumes "argmax xs = Some j"
  shows "j < length xs \<and> (\<forall>x \<in> set xs. x \<le> xs ! j)"
proof (cases xs)
  case Nil
  with assms show ?thesis by (simp add: argmax_def)
next
  case (Cons x rest)
  with assms have j: "j = argmax_aux rest 1 0 x"
    by (simp add: argmax_def)
  from argmax_aux_spec [of 0 "[x]" 1 x rest] show ?thesis
    by (simp add: j Cons)
qed

lemma sum_list_pos_elem: "sum_list (xs :: real list) > 0 \<Longrightarrow> \<exists>x \<in> set xs. x > 0"
  by (induction xs) (auto simp: add_pos_pos not_less intro: ccontr dest: add_nonpos_nonpos)

lemma sum_list_zeros: "\<forall>x \<in> set xs. x = 0 \<Longrightarrow> sum_list (xs :: real list) = 0"
  by (induction xs) auto

lemma all_pairs_members:
  assumes "all_pairs m i0 M = Some ps" and "p \<in> set ps"
  shows "\<exists>k < length M. p_x p = int (i0 + k) \<and> (\<exists>j. argmax (M ! k) = Some j \<and> p_y p = int j)
           \<and> (flag p \<noteq> 0 \<longrightarrow> sum_list (M ! k) > m)"
  using assms
proof (induction M arbitrary: i0 ps)
  case Nil
  then show ?case by simp
next
  case (Cons row rows)
  from Cons.prems(1) obtain q qs where
    q: "row_pair m i0 row = Some q" and qs: "all_pairs m (Suc i0) rows = Some qs"
    and ps: "ps = q # qs"
    by (auto split: option.splits)
  show ?case
  proof (cases "p = q")
    case True
    with q have "p_x p = int (i0 + 0) \<and> (\<exists>j. argmax ((row # rows) ! 0) = Some j \<and> p_y p = int j)
           \<and> (flag p \<noteq> 0 \<longrightarrow> sum_list ((row # rows) ! 0) > m)"
      by (auto simp: row_pair_def split: option.splits if_splits)
    then show ?thesis by blast
  next
    case False
    with Cons.prems(2) ps have "p \<in> set qs" by simp
    from Cons.IH [OF qs this] obtain k where
      "k < length rows" "p_x p = int (Suc i0 + k)"
      "\<exists>j. argmax (rows ! k) = Some j \<and> p_y p = int j"
      "flag p \<noteq> 0 \<longrightarrow> sum_list (rows ! k) > m"
      by blast
    then have "Suc k < length (row # rows) \<and> p_x p = int (i0 + Suc k)
        \<and> (\<exists>j. argmax ((row # rows) ! Suc k) = Some j \<and> p_y p = int j)
        \<and> (flag p \<noteq> 0 \<longrightarrow> sum_list ((row # rows) ! Suc k) > m)"
      by simp
    then show ?thesis by blast
  qed
qed

lemma zero_boundary_row_interior:
  assumes zb: "zero_boundary M" and k: "k < length M" and pos: "sum_list (M ! k) > 0"
  shows "interior (length M) (int k)"
proof -
  have "k \<noteq> 0"
  proof
    assume "k = 0"
    with k have "M ! k \<in> set (take 1 M)"
      by (cases M) auto
    with zb have "\<forall>x \<in> set (M ! k). x = 0"
      by (auto simp: zero_boundary_def)
    then have "sum_list (M ! k) = 0"
      by (rule sum_list_zeros)
    with pos show False by simp
  qed
  moreover have "k \<noteq> length M - 1"
  proof
    assume "k = length M - 1"
    with k have "M ! k \<in> set (drop (length M - 1) M)"
      by (metis in_set_conv_nth length_drop add.right_neutral nth_drop le_refl
          zero_less_diff diff_diff_cancel less_imp_le_nat)
    with zb have "\<forall>x \<in> set (M ! k). x = 0"
      by (auto simp: zero_boundary_def)
    then have "sum_list (M ! k) = 0"
      by (rule sum_list_zeros)
    with pos show False by simp
  qed
  ultimately show ?thesis
    using k by (auto simp: interior_def)
qed

lemma zero_boundary_argmax_interior:
  assumes zb: "zero_boundary M" and k: "k < length M" and pos: "sum_list (M ! k) > 0"
    and j: "argmax (M ! k) = Some j"
  shows "interior (length M) (int j)"
proof -
  let ?row = "M ! k"
  from k have row: "?row \<in> set M" by simp
  with zb have len: "length ?row = length M" and z0: "?row ! 0 = 0"
    and zN: "?row ! (length M - 1) = 0"
    by (auto simp: zero_boundary_def)
  from argmax_spec [OF j] have jl: "j < length ?row" and mx: "\<forall>x \<in> set ?row. x \<le> ?row ! j"
    by auto
  from sum_list_pos_elem [OF pos] mx have "?row ! j > 0"
    by force
  have "j \<noteq> 0" "j \<noteq> length M - 1"
  proof -
    show "j \<noteq> 0"
    proof
      assume "j = 0"
      with z0 \<open>?row ! j > 0\<close> show False by simp
    qed
    show "j \<noteq> length M - 1"
    proof
      assume "j = length M - 1"
      with zN \<open>?row ! j > 0\<close> show False by simp
    qed
  qed
  with jl len show ?thesis
    by (auto simp: interior_def)
qed

lemma find_pairs_interior:
  assumes zb: "zero_boundary M" and m: "0 \<le> m" and fp: "find_pairs M m = Some ps"
    and p: "p \<in> set ps"
  shows "interior (length M) (p_x p) \<and> interior (length M) (p_y p)"
proof -
  from fp obtain qs where qs: "all_pairs m 0 M = Some qs"
    and ps: "ps = sort_key p_x (map mirror (filter (\<lambda>p. flag p \<noteq> 0) qs))"
    by (auto simp: find_pairs_def split: option.splits)
  from p ps obtain q where q: "q \<in> set qs" "flag q \<noteq> 0" "p = mirror q"
    by auto
  from all_pairs_members [OF qs q(1)] q(2) obtain k j where
    k: "k < length M" "p_x q = int k" "argmax (M ! k) = Some j" "p_y q = int j"
    "sum_list (M ! k) > m"
    by auto
  from k(5) m have pos: "sum_list (M ! k) > 0" by simp
  have "interior (length M) (p_x q)" "interior (length M) (p_y q)"
    using zero_boundary_row_interior [OF zb k(1) pos]
      zero_boundary_argmax_interior [OF zb k(1) pos k(3)] k(2,4)
    by simp_all
  then show ?thesis
    by (simp add: q(3) mirror_def)
qed

lemma zero_boundary_sign_normalise:
  assumes "zero_boundary WM"
  shows "zero_boundary (sign_normalise WM)"
proof -
  have rows: "length row = length WM \<and> map ((*) c) row ! 0 = 0
                \<and> map ((*) c) row ! (length WM - 1) = 0"
    if "row \<in> set WM" for row and c :: real
  proof -
    from that assms have r: "length row = length WM" "row ! 0 = 0" "row ! (length WM - 1) = 0"
      by (auto simp: zero_boundary_def)
    from that have "0 < length WM"
      by (cases WM) auto
    with r show ?thesis
      by simp
  qed
  from assms have "\<forall>x \<in> set (concat (take 1 WM)). x = 0"
    and "\<forall>x \<in> set (concat (drop (length WM - 1) WM)). x = 0"
    by (auto simp: zero_boundary_def)
  with rows show ?thesis
    unfolding zero_boundary_def sign_normalise_def
    by (auto simp: take_map drop_map)
qed

lemma minwr_per_seg_nonneg:
  "0 \<le> mwd \<Longrightarrow> 0 < dl \<Longrightarrow> 0 < om0 \<Longrightarrow> 0 \<le> minwr_per_seg_of mwd dl om0"
  by (simp add: minwr_per_seg_of_def wr2dens_conv_fac_def)


subsection \<open>Tracers and branches\<close>

lemma set_update_cases:
  "x \<in> set (xs[k := v]) \<Longrightarrow> x = v \<and> k < length xs \<or> x \<in> set xs"
  by (cases "k < length xs") (auto simp: list_update_beyond dest: set_update_subset_insert [THEN subsetD])

lemma add_pair_interior:
  assumes inv: "tracers_interior N ts" and p: "interior N (p_x p)" "interior N (p_y p)"
  shows "tracers_interior N (add_pair connect_segs ts p)"
proof -
  obtain mid mlen where m:
    "match_loop connect_segs ts p [0 ..< length (tracers ts)] (- 1, 0) = (mid, mlen)"
    by (cases "match_loop connect_segs ts p [0 ..< length (tracers ts)] (- 1, 0)")
  show ?thesis
  proof (cases "mlen = 0")
    case True
    with inv p show ?thesis
      by (auto simp: add_pair_def m tracers_interior_def interior_lim_def)
  next
    case False
    let ?k = "nat mid"
    have x: "interior_lim N l"
      if "l \<in> set ((tracer_xlims ts)[?k := (fst (tracer_xlims ts ! ?k), p_x p)])" for l
      using set_update_cases [OF that] inv p
      by (auto simp: tracers_interior_def interior_lim_def)
    have y: "interior_lim N l"
      if "l \<in> set ((tracer_ylims ts)[?k :=
            (let yl = tracer_ylims ts ! ?k;
                 yl1 = (if p_y p > snd yl then (fst yl, p_y p) else yl)
             in (if p_y p < fst yl1 then (p_y p, snd yl1) else yl1))])" for l
      using set_update_cases [OF that] inv p
      by (auto simp: tracers_interior_def interior_lim_def Let_def)
    from False inv x y show ?thesis
      by (simp add: add_pair_def m tracers_interior_def Let_def)
  qed
qed

lemma foldl_add_pair_interior:
  "tracers_interior N ts \<Longrightarrow> \<forall>p \<in> set ps. interior N (p_x p) \<and> interior N (p_y p) \<Longrightarrow>
   tracers_interior N (foldl (add_pair connect_segs) ts ps)"
  by (induction ps arbitrary: ts) (simp_all add: add_pair_interior)

lemma build_tracers_interior:
  "\<forall>p \<in> set ps. interior N (p_x p) \<and> interior N (p_y p) \<Longrightarrow>
   tracers_interior N (build_tracers connect_segs ps)"
  unfolding build_tracers_def
  by (rule foldl_add_pair_interior) (simp_all add: tracers_interior_def)

lemma promote_members:
  "b \<in> set (fst (promote M mwd dl om0 ts is)) \<Longrightarrow>
   \<exists>i \<in> set is. b = mk_branch (tracer_xlims ts ! i) (tracer_ylims ts ! i)"
  by (induction "is") (auto simp: Let_def split_def split: if_splits)

lemma find_branches_in_range:
  assumes zb: "zero_boundary M" and m: "0 \<le> minwr_per_seg_of mwd dl om0"
    and fb: "find_branches M mwd dl connect_dist om0 = Some (bs, ts)" and b: "b \<in> set bs"
  shows "in_range (length M) b"
proof -
  from fb obtain ps where ps: "find_pairs M (minwr_per_seg_of mwd dl om0) = Some ps"
    and bs: "(bs, ts) = promote M mwd dl om0 (build_tracers \<lceil>connect_dist / dl\<rceil> ps)
               [0 ..< length (tracers (build_tracers \<lceil>connect_dist / dl\<rceil> ps))]"
    by (auto simp: find_branches_def Let_def split: if_splits option.splits)
  let ?ts = "build_tracers \<lceil>connect_dist / dl\<rceil> ps"
  have "\<forall>p \<in> set ps. interior (length M) (p_x p) \<and> interior (length M) (p_y p)"
    using find_pairs_interior [OF zb m ps] by blast
  then have inv: "tracers_interior (length M) ?ts"
    by (rule build_tracers_interior)
  from b bs have "b \<in> set (fst (promote M mwd dl om0 ?ts [0 ..< length (tracers ?ts)]))"
    by (metis fst_conv)
  from promote_members [OF this] obtain i where
    i: "i < length (tracers ?ts)" "b = mk_branch (tracer_xlims ?ts ! i) (tracer_ylims ?ts ! i)"
    by auto
  from inv i(1) have "interior_lim (length M) (tracer_xlims ?ts ! i)"
    "interior_lim (length M) (tracer_ylims ?ts ! i)"
    by (simp_all add: tracers_interior_def)
  then show ?thesis
    by (simp add: i(2) in_range_def mk_branch_def interior_lim_def)
qed


subsection \<open>Overlap and conflict resolution\<close>

lemma pair_overlap_boxed:
  assumes "remove_branchpair_overlap WM x1 x2 l1 l2 = Some (l1', l2')"
    and "boxed_lim N l1" and "boxed_lim N l2"
  shows "boxed_lim N l1' \<and> boxed_lim N l2'"
  using assms
  by (auto simp: remove_branchpair_overlap_def select_case_def truncate_pair_def Let_def
        boxed_lim_def split: if_splits)

lemma resolve_pair_boxed:
  assumes "resolve_pair WM bi bj = Some (bi', bj')" and "boxed N bi" and "boxed N bj"
  shows "boxed N bi' \<and> boxed N bj'"
proof -
  from assms(1) obtain a1 a2 b1 b2 c1 c2 d1 d2 where
    a: "remove_branchpair_overlap WM (xlim bi) (xlim bj) (ylim bi) (ylim bj) = Some (a1, a2)" and
    b: "remove_branchpair_overlap WM a1 (xlim bj) (xlim bi) a2 = Some (b1, b2)" and
    c: "remove_branchpair_overlap WM b1 b2 a1 (xlim bj) = Some (c1, c2)" and
    d: "remove_branchpair_overlap WM c1 b2 b1 c2 = Some (d1, d2)" and
    r: "bi' = mk_branch d1 c1" "bj' = mk_branch d2 b2"
    by (auto simp: resolve_pair_def split: option.splits prod.splits)
  from assms(2,3) have 0: "boxed_lim N (xlim bi)" "boxed_lim N (ylim bi)"
    "boxed_lim N (xlim bj)" "boxed_lim N (ylim bj)"
    by (simp_all add: boxed_def)
  note ra = pair_overlap_boxed [OF a 0(2) 0(4)]
  note rb = pair_overlap_boxed [OF b 0(1) ra [THEN conjunct2]]
  note rc = pair_overlap_boxed [OF c ra [THEN conjunct1] 0(3)]
  note rd = pair_overlap_boxed [OF d rb [THEN conjunct1] rc [THEN conjunct2]]
  from rb rc rd show ?thesis
    by (simp add: r boxed_def)
qed

lemma overlap_inner_boxed:
  assumes "overlap_inner WM i js bs = Some bs'" and "\<forall>b \<in> set bs. boxed N b"
    and "i < length bs" and "\<forall>j \<in> set js. j < length bs"
  shows "\<forall>b \<in> set bs'. boxed N b"
  using assms
proof (induction js arbitrary: bs)
  case Nil
  then show ?case by simp
next
  case (Cons j js)
  show ?case
  proof (cases "Y2 (bs ! j) < Y1 (bs ! j)")
    case True
    with Cons show ?thesis by simp
  next
    case False
    with Cons.prems obtain bi bj where
      rp: "resolve_pair WM (bs ! i) (bs ! j) = Some (bi, bj)" and
      run: "overlap_inner WM i js (bs[i := bi, j := bj]) = Some bs'"
      by (auto split: option.splits)
    from Cons.prems have "boxed N (bs ! i)" "boxed N (bs ! j)"
      by simp_all
    from resolve_pair_boxed [OF rp this] Cons.prems(2)
    have "\<forall>b \<in> set (bs[i := bi, j := bj]). boxed N b"
      by (auto dest!: set_update_cases)
    from Cons.IH [OF run this] Cons.prems show ?thesis
      by simp
  qed
qed

lemma overlap_outer_boxed:
  assumes "overlap_outer WM is bs = Some bs'" and "\<forall>b \<in> set bs. boxed N b"
    and "\<forall>i \<in> set is. i < length bs"
  shows "\<forall>b \<in> set bs'. boxed N b"
  using assms
proof (induction "is" arbitrary: bs)
  case Nil
  then show ?case by simp
next
  case (Cons i "is")
  show ?case
  proof (cases "Y2 (bs ! i) < Y1 (bs ! i)")
    case True
    with Cons show ?thesis by simp
  next
    case False
    with Cons.prems obtain bs1 where
      inner: "overlap_inner WM i [Suc i ..< length bs] bs = Some bs1" and
      run: "overlap_outer WM is bs1 = Some bs'"
      by (auto split: option.splits)
    have i: "i < length bs" and js: "\<forall>j \<in> set [Suc i ..< length bs]. j < length bs"
      using Cons.prems by simp_all
    note b1 = overlap_inner_boxed [OF inner Cons.prems(2) i js]
    have "\<forall>j \<in> set [Suc i ..< length bs]. j < length bs \<and> j \<noteq> i"
      by auto
    from overlap_inner_result [OF inner i this] have "length bs1 = length bs"
      by simp
    with Cons.prems have "\<forall>i \<in> set is. i < length bs1"
      by simp
    from Cons.IH [OF run b1 this] show ?thesis .
  qed
qed

lemma remove_branch_overlap_boxed:
  assumes "remove_branch_overlap WM bs = Some out" and "\<forall>b \<in> set bs. boxed N b"
    and "b \<in> set out"
  shows "\<exists>b0. boxed N b0 \<and> b = flag_branch b0"
proof -
  from assms(1) obtain bs' where
    outer: "overlap_outer WM [0 ..< length bs - 1] bs = Some bs'" and
    out: "out = map flag_branch bs'"
    by (auto simp: remove_branch_overlap_def split: option.splits)
  have "\<forall>i \<in> set [0 ..< length bs - 1]. i < length bs"
    by auto
  from overlap_outer_boxed [OF outer assms(2) this] assms(3) out show ?thesis
    by auto
qed

lemma in_range_boxed: "in_range N b \<Longrightarrow> boxed N b"
  by (auto simp: in_range_def boxed_def boxed_lim_def interior_def xlim_def ylim_def)

lemma live_boxed_in_range: "live b \<Longrightarrow> boxed N b \<Longrightarrow> in_range N b"
  by (auto simp: in_range_def boxed_def boxed_lim_def interior_def xlim_def ylim_def live_def
        valid_lim_def)

lemma remove_branch_overlap_in_range:
  assumes "remove_branch_overlap WM bs = Some out" and "\<forall>b \<in> set bs. boxed N b"
    and "b \<in> set out" and "X1 b \<noteq> - 1"
  shows "in_range N b"
proof -
  from remove_branch_overlap_boxed [OF assms(1-3)] obtain b0
    where b0: "boxed N b0" "b = flag_branch b0"
    by blast
  with assms(4) flag_branch_live [of b0] show ?thesis
    by (simp add: live_boxed_in_range)
qed

lemma fold_flag_members:
  "b \<in> set (fold (\<lambda>cid bs'. bs'[cid := set_flag (bs' ! cid)]) ids bs) \<Longrightarrow>
   b \<in> set bs \<or> X1 b = - 1"
proof (induction ids arbitrary: bs)
  case Nil
  then show ?case by simp
next
  case (Cons c ids)
  from Cons.IH [of "bs[c := set_flag (bs ! c)]"] Cons.prems
  have "b \<in> set (bs[c := set_flag (bs ! c)]) \<or> X1 b = - 1"
    by simp
  then show ?case
    by (auto simp: set_flag_def dest!: set_update_cases)
qed

lemma X1_set_flag: "X1 (set_flag b) = - 1"
  by (simp add: set_flag_def)

lemma resolve_step_members:
  "b \<in> set (resolve_step WM i bs) \<Longrightarrow> b \<in> set bs \<or> X1 b = - 1"
  by (auto simp: resolve_step_def Let_def split_def X1_set_flag split: if_splits
        dest!: set_update_cases fold_flag_members)

lemma fold_resolve_step_members:
  "b \<in> set (fold (resolve_step WM) is bs) \<Longrightarrow> b \<in> set bs \<or> X1 b = - 1"
proof (induction "is" arbitrary: bs)
  case Nil
  then show ?case by simp
next
  case (Cons i "is")
  from Cons.IH [of "resolve_step WM i bs"] Cons.prems
  have "b \<in> set (resolve_step WM i bs) \<or> X1 b = - 1"
    by simp
  then show ?case
    using resolve_step_members by blast
qed

lemma remove_flagged_members:
  "b \<in> set (fst (remove_flagged_branches bs ts)) \<Longrightarrow> b \<in> set bs \<and> X1 b \<noteq> - 1"
  by (auto simp: remove_flagged_branches_def Let_def dest: set_zip_leftD)

lemma resolve_branches_in_range:
  assumes rb: "resolve_branches WM no_overlap bs ts = Some (bs2, ts2)"
    and bs: "\<forall>b \<in> set bs. in_range N b" and b: "b \<in> set bs2"
  shows "in_range N b"
proof -
  from rb obtain bs1 ts1 where
    first: "(if no_overlap
            then (case remove_branch_overlap WM bs of
                    None \<Rightarrow> None
                  | Some out \<Rightarrow> Some (remove_flagged_branches out ts))
            else Some (bs, ts)) = Some (bs1, ts1)" and
    second: "(bs2, ts2) = remove_flagged_branches (resolve_inconsistent_branches WM bs1) ts1"
    by (auto simp: resolve_branches_def split: option.splits)
  have bs1: "\<forall>b \<in> set bs1. in_range N b"
  proof (cases no_overlap)
    case True
    with first obtain out where out: "remove_branch_overlap WM bs = Some out"
      and r: "(bs1, ts1) = remove_flagged_branches out ts"
      by (auto split: option.splits)
    have boxed: "\<forall>b \<in> set bs. boxed N b"
      using bs in_range_boxed by blast
    show ?thesis
    proof
      fix c assume "c \<in> set bs1"
      with r have "c \<in> set (fst (remove_flagged_branches out ts))"
        by (metis fst_conv)
      from remove_flagged_members [OF this] show "in_range N c"
        using remove_branch_overlap_in_range [OF out boxed] by blast
    qed
  next
    case False
    with first bs show ?thesis by simp
  qed
  from b second have "b \<in> set (fst (remove_flagged_branches (resolve_inconsistent_branches WM bs1) ts1))"
    by (metis fst_conv)
  from remove_flagged_members [OF this]
  have "b \<in> set (resolve_inconsistent_branches WM bs1)" "X1 b \<noteq> - 1"
    by simp_all
  with fold_resolve_step_members [of b WM _ bs1] have "b \<in> set bs1"
    by (auto simp: resolve_inconsistent_branches_def)
  with bs1 show ?thesis by simp
qed

subsection \<open>Composites and plectonemes\<close>

lemma merged_in_range:
  "in_range N plec \<Longrightarrow> in_range N bi \<Longrightarrow>
   in_range N (plec\<lparr>X2 := maxint (X2 plec) (X2 bi), Y1 := minint (Y1 plec) (Y1 bi)\<rparr>)"
  by (simp add: in_range_def maxint_def minint_def)

lemma combine_scan_in_range:
  assumes "\<forall>c \<in> set (combbranch st). in_range N c" and "in_range N bi"
    and "\<forall>j \<in> set js. j < length (combbranch st)"
  shows "\<forall>c \<in> set (combbranch (snd (combine_scan WM m bi i js st))). in_range N c"
  using assms
proof (induction js)
  case Nil
  then show ?case by simp
next
  case (Cons j js)
  define plec where "plec = combbranch st ! j"
  define merged where
    "merged = plec\<lparr>X2 := maxint (X2 plec) (X2 bi), Y1 := minint (Y1 plec) (Y1 bi)\<rparr>"
  from Cons.prems have "in_range N plec"
    by (simp add: plec_def)
  then have mg: "in_range N merged"
    unfolding merged_def using Cons.prems(2) by (rule merged_in_range)
  have upd: "\<forall>c \<in> set ((combbranch st)[j := merged]). in_range N c"
    using mg Cons.prems(1) by (auto dest: set_update_cases)
  show ?case
  proof (cases "is_downstream (X1 plec) (Y2 plec) (X1 bi) (Y2 bi)")
    case False
    then have "combine_scan WM m bi i (j # js) st = combine_scan WM m bi i js st"
      by (simp add: Let_def plec_def)
    with Cons show ?thesis
      by simp
  next
    case True
    then have "combbranch (snd (combine_scan WM m bi i (j # js) st)) = combbranch st
        \<or> combbranch (snd (combine_scan WM m bi i (j # js) st)) = (combbranch st)[j := merged]"
      by (simp add: Let_def plec_def merged_def)
    with upd Cons.prems(1) show ?thesis
      by auto
  qed
qed

lemma combine_step_in_range:
  assumes "\<forall>c \<in> set (combbranch st). in_range N c" and "in_range N (bs ! i)"
  shows "\<forall>c \<in> set (combbranch (combine_step WM m bs st i)). in_range N c"
proof -
  define r where "r = combine_scan WM m (bs ! i) i [0 ..< length (combbranch st)] st"
  have scan: "\<forall>c \<in> set (combbranch (snd r)). in_range N c"
    unfolding r_def using assms by (intro combine_scan_in_range) simp_all
  have "combbranch (combine_step WM m bs st i)
          = (if fst r then combbranch (snd r) @ [bs ! i] else combbranch (snd r))"
    by (simp add: combine_step_def split_def r_def [symmetric])
  with scan assms(2) show ?thesis
    by simp
qed

lemma foldl_combine_step_in_range:
  assumes "\<forall>c \<in> set (combbranch st). in_range N c" and "\<forall>i \<in> set is. in_range N (bs ! i)"
  shows "\<forall>c \<in> set (combbranch (foldl (combine_step WM m bs) st is)). in_range N c"
  using assms
proof (induction "is" arbitrary: st)
  case Nil
  then show ?case by simp
next
  case (Cons i "is")
  have "\<forall>c \<in> set (combbranch (combine_step WM m bs st i)). in_range N c"
    using Cons.prems by (intro combine_step_in_range) simp_all
  from Cons.IH [OF this] Cons.prems(2) show ?case
    by simp
qed

lemma combine_branches_in_range:
  assumes "combine_branches WM bs mwd dl om0 = Some (cbs, ids)" and "\<forall>b \<in> set bs. in_range N b"
  shows "\<forall>c \<in> set cbs. in_range N c"
proof -
  from assms(1) have "cbs = combbranch (combine_run WM (minwr_per_seg_of mwd dl om0) bs)"
    by (auto simp: combine_branches_def Let_def split: if_splits)
  moreover have "\<forall>c \<in> set (combbranch (combine_run WM (minwr_per_seg_of mwd dl om0) bs)).
                   in_range N c"
    unfolding combine_run_def using assms(2)
    by (intro foldl_combine_step_in_range) simp_all
  ultimately show ?thesis by simp
qed

lemma flagged_writhe_zero:
  assumes "boxed (length WM) b0"
  shows "branch_writhe WM (b0\<lparr>X1 := - 1\<rparr>) = 0"
proof -
  from assms have x2: "0 \<le> X2 b0" "X2 b0 \<le> int (length WM) - 2"
    by (simp_all add: boxed_def boxed_lim_def xlim_def)
  then have "slice_idx (length WM) (X2 b0 + 1) \<le> slice_idx (length WM) (- 1)"
    by (auto simp: slice_idx_def)
  then have "py_slice (- 1) (X2 b0 + 1) WM = []"
    by (simp add: py_slice_def Let_def)
  then show ?thesis
    by (simp add: branch_writhe_def cal_branch_writhe_def block_sum_def)
qed

lemma define_plecs_in_range:
  assumes cbs: "\<forall>c \<in> set cbs. in_range (length WM) c"
    and dp: "define_plecs WM cbs mwd pmw dl om0 = Some plecs" and p: "p \<in> set plecs"
  shows "(id1 p \<noteq> - 1 \<longrightarrow>
            interior (length WM) (id1 p) \<and> id1 p \<le> id2 p \<and> interior (length WM) (id2 p)) \<and>
         (0 < mwd \<or> 0 < pmw \<longrightarrow> id1 p \<noteq> - 1)"
proof -
  from dp obtain cps where
    cps: "remove_branch_overlap WM (map candidate_plec cbs) = Some cps" and
    plecs: "plecs = plec_loop WM mwd pmw dl om0 (enumerate 0 cps)"
    by (auto simp: define_plecs_def split: if_splits option.splits)
  have dist: "distinct (map fst (enumerate 0 cps))"
    by simp
  from p obtain i c where
    ic: "(i, c) \<in> set (enumerate 0 cps)" and
    dens: "wr2dens_conv_fac om0 * branch_writhe WM c / (real_of_int (X2 c - X1 c + 1) * dl) \<ge> mwd" and
    w: "branch_writhe WM c \<ge> pmw" and
    ids: "id1 p = X1 c" "id2 p = X2 c"
    unfolding plecs plec_loop_member [OF dist] by auto
  from ic have c: "c \<in> set cps"
    by (auto simp: in_set_enumerate_eq)
  have "\<forall>b \<in> set (map candidate_plec cbs). boxed (length WM) b"
    using cbs by (auto simp: candidate_plec_def in_range_def boxed_def boxed_lim_def
        interior_def xlim_def ylim_def)
  from remove_branch_overlap_boxed [OF cps this c] obtain b0 where
    b0: "boxed (length WM) b0" "c = flag_branch b0"
    by blast
  show ?thesis
  proof (cases "live b0")
    case True
    with b0 have "c = b0" "in_range (length WM) c" "live c"
      by (simp_all add: flag_branch_id live_boxed_in_range)
    then show ?thesis
      by (auto simp: ids in_range_def interior_def live_def valid_lim_def xlim_def)
  next
    case False
    with b0 have flagged: "c = b0\<lparr>X1 := - 1\<rparr>"
      by (auto simp: flag_branch_def live_def valid_lim_def xlim_def ylim_def)
    with flagged_writhe_zero [OF b0(1)] have "branch_writhe WM c = 0"
      by simp
    with dens w have "mwd \<le> 0" "pmw \<le> 0"
      by simp_all
    with flagged show ?thesis
      by (simp add: ids)
  qed
qed

subsection \<open>The stages return\<close>

lemma all_pairs_total:
  "\<forall>row \<in> set M. row \<noteq> [] \<Longrightarrow> \<exists>qs. all_pairs m i M = Some qs"
proof (induction M arbitrary: i)
  case Nil
  then show ?case by simp
next
  case (Cons row rows)
  from Cons.prems have "row \<noteq> []"
    by simp
  then obtain p where "row_pair m i row = Some p"
    by (cases row) (simp_all add: row_pair_def argmax_def)
  moreover from Cons obtain qs where "all_pairs m (Suc i) rows = Some qs"
    by fastforce
  ultimately show ?case
    by simp
qed

lemma zero_boundary_rows: "zero_boundary M \<Longrightarrow> \<forall>row \<in> set M. row \<noteq> []"
proof
  fix row assume zb: "zero_boundary M" and row: "row \<in> set M"
  then have "length row = length M"
    by (simp add: zero_boundary_def)
  moreover from row have "0 < length M"
    by (cases M) auto
  ultimately show "row \<noteq> []"
    by auto
qed

lemma find_pairs_total: "zero_boundary M \<Longrightarrow> \<exists>ps. find_pairs M m = Some ps"
  using all_pairs_total [OF zero_boundary_rows, of M m 0]
  by (auto simp: find_pairs_def)

lemma resolve_branches_total: "\<exists>bs' ts'. resolve_branches WM no_overlap bs ts = Some (bs', ts')"
proof -
  obtain out where "remove_branch_overlap WM bs = Some out"
    using remove_branch_overlap_total by blast
  then show ?thesis
    by (cases "remove_flagged_branches out ts";
        cases "remove_flagged_branches (resolve_inconsistent_branches WM bs) ts")
       (simp add: resolve_branches_def split_def)
qed

lemma length_sign_normalise: "length (sign_normalise WM) = length WM"
  by (simp add: sign_normalise_def)

text \<open>
  Claim C6, as amended. Let the matrix be square with its first and last row and column
  zero, \<open>min_writhe_density\<close> not negative, and \<open>disc_len\<close> and \<open>om0\<close> positive. Then the
  stages that \<open>find_plecs\<close> runs on the sign-normalised matrix all return, and with \<open>N\<close>
  the size of the matrix: every pair that the pair detector emits has both entries in
  \<open>[1, N - 2]\<close>; every branch that the classifier promotes, and every branch left after
  the overlap resolver (switched on or off) and the conflict resolver, has its four
  bounds in \<open>[1, N - 2]\<close>; every record of the plectoneme definer that does not carry
  the sentinel \<open>id1 = -1\<close> has \<open>1 \<le> id1 \<le> id2 \<le> N - 2\<close>; and a record with \<open>id1 = -1\<close>,
  which is the record of a candidate that the overlap removal has flagged, is there
  only if neither \<open>min_writhe_density\<close> nor \<open>plec_min_writhe\<close> is positive.
\<close>

theorem boundary_exclusion:
  assumes zb: "zero_boundary WM" and mwd: "0 \<le> mwd" and dl: "0 < dl" and om: "0 < om0"
  shows "\<exists>ps bs ts bs' ts' cbs ids plecs.
           find_pairs (sign_normalise WM) (minwr_per_seg_of mwd dl om0) = Some ps \<and>
           find_branches (sign_normalise WM) mwd dl connect_dist om0 = Some (bs, ts) \<and>
           resolve_branches (sign_normalise WM) no_overlap bs ts = Some (bs', ts') \<and>
           combine_branches (sign_normalise WM) bs' mwd dl om0 = Some (cbs, ids) \<and>
           define_plecs (sign_normalise WM) cbs mwd pmw dl om0 = Some plecs \<and>
           (\<forall>p \<in> set ps. interior (length WM) (p_x p) \<and> interior (length WM) (p_y p)) \<and>
           (\<forall>b \<in> set bs. in_range (length WM) b) \<and>
           (\<forall>b \<in> set bs'. in_range (length WM) b) \<and>
           (\<forall>p \<in> set plecs.
              (id1 p \<noteq> - 1 \<longrightarrow>
                 interior (length WM) (id1 p) \<and> id1 p \<le> id2 p \<and> interior (length WM) (id2 p)) \<and>
              (0 < mwd \<or> 0 < pmw \<longrightarrow> id1 p \<noteq> - 1))"
proof -
  define pWM where "pWM = sign_normalise WM"
  define m where "m = minwr_per_seg_of mwd dl om0"
  have len: "length pWM = length WM"
    by (simp add: pWM_def length_sign_normalise)
  have zbp: "zero_boundary pWM"
    unfolding pWM_def using zb by (rule zero_boundary_sign_normalise)
  have m0: "0 \<le> minwr_per_seg_of mwd dl om0"
    using mwd dl om by (rule minwr_per_seg_nonneg)
  obtain ps where ps: "find_pairs pWM m = Some ps"
    using find_pairs_total [OF zbp] by blast
  obtain bs ts where fb: "find_branches pWM mwd dl connect_dist om0 = Some (bs, ts)"
    using dl om ps
    by (cases "promote pWM mwd dl om0 (build_tracers \<lceil>connect_dist / dl\<rceil> ps)
                 [0 ..< length (tracers (build_tracers \<lceil>connect_dist / dl\<rceil> ps))]")
       (simp add: find_branches_def m_def)
  obtain bs' ts' where rb: "resolve_branches pWM no_overlap bs ts = Some (bs', ts')"
    using resolve_branches_total by blast
  obtain cbs ids where cb: "combine_branches pWM bs' mwd dl om0 = Some (cbs, ids)"
    using om by (simp add: combine_branches_def Let_def)
  obtain cps where cps: "remove_branch_overlap pWM (map candidate_plec cbs) = Some cps"
    using remove_branch_overlap_total by blast
  with om obtain plecs where dp: "define_plecs pWM cbs mwd pmw dl om0 = Some plecs"
    by (simp add: define_plecs_def)
  have pairs: "\<forall>p \<in> set ps. interior (length WM) (p_x p) \<and> interior (length WM) (p_y p)"
    using find_pairs_interior [OF zbp m0 ps [unfolded m_def]] len by simp
  have b1: "\<forall>b \<in> set bs. in_range (length WM) b"
    using find_branches_in_range [OF zbp m0 fb] len by simp
  have b2: "\<forall>b \<in> set bs'. in_range (length WM) b"
    using resolve_branches_in_range [OF rb b1] by blast
  have b3: "\<forall>c \<in> set cbs. in_range (length pWM) c"
    using combine_branches_in_range [OF cb b2] len by simp
  have pl: "\<forall>p \<in> set plecs.
              (id1 p \<noteq> - 1 \<longrightarrow>
                 interior (length WM) (id1 p) \<and> id1 p \<le> id2 p \<and> interior (length WM) (id2 p)) \<and>
              (0 < mwd \<or> 0 < pmw \<longrightarrow> id1 p \<noteq> - 1)"
    using define_plecs_in_range [OF b3 dp] len by simp
  from ps fb rb cb dp pairs b1 b2 pl show ?thesis
    unfolding pWM_def m_def by blast
qed

text \<open>
  The theorem at a concrete input: the 6 by 6 matrix with zero boundary whose entries
  \<open>(1, 4)\<close> and \<open>(4, 1)\<close> are 1, with \<open>min_writhe_density = 1/10\<close>, \<open>plec_min_writhe = 1\<close>,
  \<open>disc_len = 1\<close>, \<open>connect_dist = 2\<close>, \<open>om0 = 2 pi\<close> and the overlap resolver switched on.
  The rows 1 and 4 give the pair \<open>(1, 4)\<close>, the branch is \<open>(1, 1, 4, 4)\<close> and the
  plectoneme is \<open>[1, 4]\<close>.
\<close>

theorem boundary_exclusion_witness:
  "\<exists>ps bs ts bs' ts' cbs ids plecs.
     find_pairs
       (sign_normalise
          ((replicate 6 (replicate 6 0))[1 := (replicate 6 0)[4 := 1], 4 := (replicate 6 0)[1 := 1]]))
       (minwr_per_seg_of (1 / 10) 1 (2 * pi)) = Some ps \<and>
     find_branches
       (sign_normalise
          ((replicate 6 (replicate 6 0))[1 := (replicate 6 0)[4 := 1], 4 := (replicate 6 0)[1 := 1]]))
       (1 / 10) 1 2 (2 * pi) = Some (bs, ts) \<and>
     resolve_branches
       (sign_normalise
          ((replicate 6 (replicate 6 0))[1 := (replicate 6 0)[4 := 1], 4 := (replicate 6 0)[1 := 1]]))
       True bs ts = Some (bs', ts') \<and>
     combine_branches
       (sign_normalise
          ((replicate 6 (replicate 6 0))[1 := (replicate 6 0)[4 := 1], 4 := (replicate 6 0)[1 := 1]]))
       bs' (1 / 10) 1 (2 * pi) = Some (cbs, ids) \<and>
     define_plecs
       (sign_normalise
          ((replicate 6 (replicate 6 0))[1 := (replicate 6 0)[4 := 1], 4 := (replicate 6 0)[1 := 1]]))
       cbs (1 / 10) 1 1 (2 * pi) = Some plecs \<and>
     map (\<lambda>p. (p_x p, p_y p)) ps = [(1, 4), (1, 4)] \<and>
     bs' = [\<lparr>X1 = 1, X2 = 1, Y1 = 4, Y2 = 4\<rparr>] \<and>
     map (\<lambda>p. (id1 p, id2 p, num_segs p)) plecs = [(1, 4, 4)] \<and>
     interior 6 (p_x (hd ps)) \<and> interior 6 (p_y (hd ps)) \<and> in_range 6 (hd bs') \<and>
     interior 6 (id1 (hd plecs)) \<and> interior 6 (id2 (hd plecs))"
proof -
  define W :: matrix where
    "W = (replicate 6 (replicate 6 0))[1 := (replicate 6 0)[4 := 1], 4 := (replicate 6 0)[1 := 1]]"
  define A where "A = \<lparr>X1 = 1, X2 = 1, Y1 = 4, Y2 = (4::int)\<rparr>"
  define p where "p = \<lparr>p_x = 1, p_y = 4, rowsum = 1, weight = 2, flag = 1\<rparr>"
  define ts0 where "ts0 = \<lparr>tracers = [[p, p]], tracer_xlims = [(1, 1)], tracer_ylims = [(4, 4)]\<rparr>"
  have zb: "zero_boundary W"
    unfolding W_def by code_simp
  have len: "length W = 6"
    by (simp add: W_def)
  have sn: "sign_normalise W = W"
    unfolding W_def by code_simp
  have fac: "wr2dens_conv_fac (2 * pi) = 1"
    by (simp add: wr2dens_conv_fac_def)
  have thr: "minwr_per_seg_of (1 / 10) 1 (2 * pi) = 1 / 10"
    by (simp add: minwr_per_seg_of_def fac)
  have pairs: "find_pairs W (1 / 10) = Some [p, p]"
    unfolding W_def p_def by code_simp
  have trs: "build_tracers 2 [p, p] = ts0"
    unfolding p_def ts0_def by code_simp
  have s: "block_sum W 1 2 4 5 = 1"
    unfolding W_def by code_simp
  have d: "tracer_wrdens W 1 (2 * pi) (1, 1) (4, 4) = 2"
    by (simp add: tracer_wrdens_def fac s maxint_def)
  have band: "tracer_band [p, p] (1, 1) (4, 4) = [(1, 4)]"
    unfolding p_def by code_simp
  have ts_sel: "length (tracers ts0) = 1" "tracer_xlims ts0 = [(1, 1)]"
    "tracer_ylims ts0 = [(4, 4)]" "tracers ts0 = [[p, p]]"
    by (simp_all add: ts0_def)
  have fb: "find_branches W (1 / 10) 1 2 (2 * pi)
              = Some (promote W (1 / 10) 1 (2 * pi) ts0 [0 ..< length (tracers ts0)])"
    using find_branches_from_parts [where disc_len = 1 and ?om0.0 = "2 * pi" and WM = W
        and mwd = "1 / 10" and ps = "[p, p]" and connect_dist = 2 and ts = ts0]
    by (simp add: thr pairs trs)
  have fb2: "find_branches W (1 / 10) 1 2 (2 * pi) = Some ([A], [[(1, 4)]])"
    by (simp add: fb ts_sel d band mk_branch_def split_def A_def)
  have rbo1: "remove_branch_overlap W [A] = Some [A]"
    unfolding W_def A_def by code_simp
  have ri: "resolve_inconsistent_branches W [A] = [A]"
    unfolding W_def A_def by code_simp
  have xa: "X1 A = 1"
    by (simp add: A_def)
  have rb: "resolve_branches W True [A] [[(1::int, 4::real)]] = Some ([A], [[(1, 4)]])"
    by (simp add: resolve_branches_def rbo1 ri remove_flagged_branches_def xa)
  have run: "combine_run W (1 / 10) [A]
               = \<lparr>combbranch = [A], contained_branch_ids = [[0]], connect_calls = []\<rparr>"
    unfolding W_def A_def by code_simp
  have cb: "combine_branches W [A] (1 / 10) 1 (2 * pi) = Some ([A], [[0]])"
    by (simp add: combine_branches_def thr run)
  have rbo2: "remove_branch_overlap W [candidate_plec A]
                = Some [\<lparr>X1 = 1, X2 = 4, Y1 = 1, Y2 = 4\<rparr>]"
    unfolding W_def A_def by code_simp
  have w: "branch_writhe W \<lparr>X1 = 1, X2 = 4, Y1 = 1, Y2 = 4\<rparr> = 2"
    unfolding W_def by code_simp
  have dp: "map (\<lambda>p. (id1 p, id2 p, num_segs p)) (the (define_plecs W [A] (1 / 10) 1 1 (2 * pi)))
              = [(1, 4, 4)]"
    by (simp add: define_plecs_def rbo2 w fac Let_def)
  have pos: "(0::real) \<le> 1 / 10" "(0::real) < 1" "(0::real) < 2 * pi"
    by simp_all
  from boundary_exclusion [OF zb pos, of 2 True 1]
  obtain ps bs ts bs' ts' cbs ids plecs where
    r: "find_pairs W (1 / 10) = Some ps"
       "find_branches W (1 / 10) 1 2 (2 * pi) = Some (bs, ts)"
       "resolve_branches W True bs ts = Some (bs', ts')"
       "combine_branches W bs' (1 / 10) 1 (2 * pi) = Some (cbs, ids)"
       "define_plecs W cbs (1 / 10) 1 1 (2 * pi) = Some plecs" and
    i1: "\<forall>p \<in> set ps. interior 6 (p_x p) \<and> interior 6 (p_y p)" and
    i2: "\<forall>b \<in> set bs'. in_range 6 b" and
    i3: "\<forall>p \<in> set plecs.
           (id1 p \<noteq> - 1 \<longrightarrow> interior 6 (id1 p) \<and> id1 p \<le> id2 p \<and> interior 6 (id2 p)) \<and>
           (0 < (1 / 10 :: real) \<or> 0 < (1::real) \<longrightarrow> id1 p \<noteq> - 1)"
    unfolding sn thr len by blast
  from r(1) pairs have ps: "ps = [p, p]"
    by simp
  from r(2) fb2 have bs: "bs = [A]" "ts = [[(1, 4)]]"
    by simp_all
  from r(3) rb have bs': "bs' = [A]"
    by (simp add: bs)
  from r(4) cb have cbs: "cbs = [A]"
    by (simp add: bs')
  from r(5) dp have plecs: "map (\<lambda>p. (id1 p, id2 p, num_segs p)) plecs = [(1, 4, 4)]"
    by (simp add: cbs)
  then have ne: "plecs \<noteq> []"
    by auto
  from i1 have f1: "interior 6 (p_x (hd ps))" and f2: "interior 6 (p_y (hd ps))"
    by (simp_all add: ps)
  from i2 have f3: "in_range 6 (hd bs')"
    by (simp add: bs')
  from i3 ne have f4: "interior 6 (id1 (hd plecs))" and f5: "interior 6 (id2 (hd plecs))"
    by (cases plecs; auto)+
  have f6: "map (\<lambda>p. (p_x p, p_y p)) ps = [(1, 4), (1, 4)]"
    by (simp add: ps p_def)
  show ?thesis
    unfolding W_def [symmetric] sn thr
    using r plecs bs' [unfolded A_def] f1 f2 f3 f4 f5 f6
    by - (intro exI conjI, assumption+)
qed

text \<open>
  Claim C6 as stated fails in two ways. First, with every stated precondition met and
  \<open>om0\<close> positive: the matrix is 22 by 22, symmetric, with zero boundary, and its
  entries \<open>(1, 10)\<close>, \<open>(10, 11)\<close>, \<open>(11, 20)\<close> and their mirror images are 2, 1 and 1;
  both thresholds are zero, \<open>disc_len = 1\<close>, \<open>connect_dist = 2\<close>, \<open>om0 = 2 pi\<close> and the
  overlap resolver is switched off. The branches are \<open>(1, 1, 10, 10)\<close>,
  \<open>(10, 10, 11, 11)\<close> and \<open>(11, 11, 20, 20)\<close>, each a composite of its own, with the
  candidates \<open>[1, 10]\<close>, \<open>[10, 11]\<close> and \<open>[11, 20]\<close>. The overlap removal gives index 10
  to the first candidate and index 11 to the third, which empties and flags the
  second, and \<open>find_plecs\<close> returns for it a plectoneme with \<open>id1 = -1\<close>, \<open>id2 = 10\<close> and
  twelve segments, the first two of them at the indices \<open>-1\<close> and \<open>0\<close>. The only pairs
  with the same first entry are the two copies of \<open>(1, 10)\<close>, which join one tracer in
  either order. Second, for a negative \<open>om0\<close> the threshold \<open>minwr_per_seg\<close> is negative:
  on the 6 by 6 matrix with the entries \<open>(1, 4)\<close> and \<open>(4, 1)\<close> equal to 1, with
  \<open>min_writhe_density = 1\<close>, \<open>disc_len = 1\<close> and \<open>om0 = - 2 pi\<close>, the rows with sum zero are
  flagged, the boundary rows 0 and 5 among them, and the pairs \<open>(0, 0)\<close> and \<open>(0, 5)\<close> are
  emitted.
\<close>

theorem boundary_exclusion_counterexample:
  "hd ((replicate 22 (replicate 22 0))[1 := (replicate 22 0)[10 := 2],
          10 := (replicate 22 0)[1 := 2, 11 := 1],
          11 := (replicate 22 0)[10 := 1, 20 := 1],
          20 := (replicate 22 0)[11 := 1]]) = replicate 22 (0::real) \<and>
   last ((replicate 22 (replicate 22 0))[1 := (replicate 22 0)[10 := 2],
          10 := (replicate 22 0)[1 := 2, 11 := 1],
          11 := (replicate 22 0)[10 := 1, 20 := 1],
          20 := (replicate 22 0)[11 := 1]]) = replicate 22 (0::real) \<and>
   map (\<lambda>row. (length row, hd row, last row))
       ((replicate 22 (replicate 22 0))[1 := (replicate 22 0)[10 := 2],
          10 := (replicate 22 0)[1 := 2, 11 := 1],
          11 := (replicate 22 0)[10 := 1, 20 := 1],
          20 := (replicate 22 0)[11 := 1]]) = replicate 22 (22, 0::real, 0::real) \<and>
   map_option
     (\<lambda>t. map (\<lambda>d. (plecdict_id1 d, plecdict_id2 d, plecdict_num_segs d)) (topol_plecs t))
     (find_plecs (\<lambda>bs i. bs ! i)
        ((replicate 22 (replicate 22 0))[1 := (replicate 22 0)[10 := 2],
          10 := (replicate 22 0)[1 := 2, 11 := 1],
          11 := (replicate 22 0)[10 := 1, 20 := 1],
          20 := (replicate 22 0)[11 := 1]])
        0 0 1 False 2 (2 * pi) False False)
     = Some [(1, 10, 10), (- 1, 10, 12), (11, 20, 10)] \<and>
   map_option (map (\<lambda>p. (p_x p, p_y p)))
     (find_pairs
        (sign_normalise
           ((replicate 6 (replicate 6 0))[1 := (replicate 6 0)[4 := 1], 4 := (replicate 6 0)[1 := 1]]))
        (minwr_per_seg_of 1 1 (- (2 * pi))))
     = Some [(0, 0), (0, 2), (0, 3), (0, 5), (1, 4), (1, 4)]"
proof -
  define W :: matrix where
    "W = (replicate 22 (replicate 22 0))[1 := (replicate 22 0)[10 := 2],
          10 := (replicate 22 0)[1 := 2, 11 := 1],
          11 := (replicate 22 0)[10 := 1, 20 := 1],
          20 := (replicate 22 0)[11 := 1]]"
  define V :: matrix where
    "V = (replicate 6 (replicate 6 0))[1 := (replicate 6 0)[4 := 1], 4 := (replicate 6 0)[1 := 1]]"
  define A where "A = \<lparr>X1 = 1, X2 = 1, Y1 = 10, Y2 = (10::int)\<rparr>"
  define B where "B = \<lparr>X1 = 10, X2 = 10, Y1 = 11, Y2 = (11::int)\<rparr>"
  define C where "C = \<lparr>X1 = 11, X2 = 11, Y1 = 20, Y2 = (20::int)\<rparr>"
  define q1 where "q1 = \<lparr>p_x = 1, p_y = 10, rowsum = 2, weight = 4, flag = 1\<rparr>"
  define q2 where "q2 = \<lparr>p_x = 1, p_y = 10, rowsum = 3, weight = 4, flag = 1\<rparr>"
  define q3 where "q3 = \<lparr>p_x = 10, p_y = 11, rowsum = 2, weight = 2, flag = 1\<rparr>"
  define q4 where "q4 = \<lparr>p_x = 11, p_y = 20, rowsum = 1, weight = 2, flag = 1\<rparr>"
  define ts0 where "ts0 = \<lparr>tracers = [[q1, q2], [q3], [q4]],
      tracer_xlims = [(1, 1), (10, 10), (11, 11)], tracer_ylims = [(10, 10), (11, 11), (20, 20)]\<rparr>"
  define tb :: "(int \<times> real) list list" where "tb = [[(1, 10)], [(10, 11)], [(11, 20)]]"
  have shape: "hd W = replicate 22 0" "last W = replicate 22 0"
    "map (\<lambda>row. (length row, hd row, last row)) W = replicate 22 (22, 0, 0)"
    unfolding W_def by code_simp+
  have sn: "sign_normalise W = W"
    unfolding W_def by code_simp
  have fac: "wr2dens_conv_fac (2 * pi) = 1"
    by (simp add: wr2dens_conv_fac_def)
  have thr: "minwr_per_seg_of 0 1 (2 * pi) = 0"
    by (simp add: minwr_per_seg_of_def)
  have pairs: "find_pairs W 0 = Some [q1, q2, q3, q4]"
    unfolding W_def q1_def q2_def q3_def q4_def by code_simp
  have trs: "build_tracers 2 [q1, q2, q3, q4] = ts0"
    unfolding q1_def q2_def q3_def q4_def ts0_def by code_simp
  have s: "block_sum W 1 2 10 11 = 2" "block_sum W 10 11 11 12 = 1" "block_sum W 11 12 20 21 = 1"
    unfolding W_def by code_simp+
  have d: "tracer_wrdens W 1 (2 * pi) (1, 1) (10, 10) = 4"
    "tracer_wrdens W 1 (2 * pi) (10, 10) (11, 11) = 2"
    "tracer_wrdens W 1 (2 * pi) (11, 11) (20, 20) = 2"
    by (simp_all add: tracer_wrdens_def fac s maxint_def)
  have band: "tracer_band [q1, q2] (1, 1) (10, 10) = [(1, 10)]"
    "tracer_band [q3] (10, 10) (11, 11) = [(10, 11)]"
    "tracer_band [q4] (11, 11) (20, 20) = [(11, 20)]"
    unfolding q1_def q2_def q3_def q4_def by code_simp+
  have ts_sel: "length (tracers ts0) = 3" "tracer_xlims ts0 = [(1, 1), (10, 10), (11, 11)]"
    "tracer_ylims ts0 = [(10, 10), (11, 11), (20, 20)]" "tracers ts0 = [[q1, q2], [q3], [q4]]"
    by (simp_all add: ts0_def)
  have idx: "[0 ..< 3] = [0, Suc 0, 2]"
    by code_simp
  have fb: "find_branches W 0 1 2 (2 * pi)
              = Some (promote W 0 1 (2 * pi) ts0 [0 ..< length (tracers ts0)])"
    using find_branches_from_parts [where disc_len = 1 and ?om0.0 = "2 * pi" and WM = W
        and mwd = 0 and ps = "[q1, q2, q3, q4]" and connect_dist = 2 and ts = ts0]
    by (simp add: thr pairs trs)
  have fb2: "find_branches W 0 1 2 (2 * pi) = Some ([A, B, C], tb)"
    by (simp add: fb ts_sel idx d band mk_branch_def split_def A_def B_def C_def tb_def)
  have ri: "resolve_inconsistent_branches W [A, B, C] = [A, B, C]"
    unfolding W_def A_def B_def C_def by code_simp
  have xs: "X1 A = 1" "X1 B = 10" "X1 C = 11"
    by (simp_all add: A_def B_def C_def)
  have rb: "resolve_branches W False [A, B, C] tb = Some ([A, B, C], tb)"
    by (simp add: resolve_branches_def ri remove_flagged_branches_def xs tb_def)
  have run: "combine_run W 0 [A, B, C]
               = \<lparr>combbranch = [A, B, C], contained_branch_ids = [[0], [1], [2]],
                  connect_calls = []\<rparr>"
    unfolding W_def A_def B_def C_def by code_simp
  have cb: "combine_branches W [A, B, C] 0 1 (2 * pi) = Some ([A, B, C], [[0], [1], [2]])"
    by (simp add: combine_branches_def thr run)
  have rbo: "remove_branch_overlap W [candidate_plec A, candidate_plec B, candidate_plec C]
               = Some [\<lparr>X1 = 1, X2 = 10, Y1 = 1, Y2 = 10\<rparr>, \<lparr>X1 = - 1, X2 = 10, Y1 = 11, Y2 = 10\<rparr>,
                       \<lparr>X1 = 11, X2 = 20, Y1 = 11, Y2 = 20\<rparr>]"
    unfolding W_def A_def B_def C_def by code_simp
  have w: "branch_writhe W \<lparr>X1 = 1, X2 = 10, Y1 = 1, Y2 = 10\<rparr> = 4"
    "branch_writhe W \<lparr>X1 = - 1, X2 = 10, Y1 = 11, Y2 = 10\<rparr> = 0"
    "branch_writhe W \<lparr>X1 = 11, X2 = 20, Y1 = 11, Y2 = 20\<rparr> = 2"
    unfolding W_def by code_simp+
  have en: "enumerate 0 [\<lparr>X1 = 1, X2 = 10, Y1 = 1, Y2 = 10\<rparr>, \<lparr>X1 = - 1, X2 = 10, Y1 = 11, Y2 = 10\<rparr>,
                       \<lparr>X1 = 11, X2 = 20, Y1 = 11, Y2 = (20::int)\<rparr>]
      = [(0, \<lparr>X1 = 1, X2 = 10, Y1 = 1, Y2 = 10\<rparr>), (Suc 0, \<lparr>X1 = - 1, X2 = 10, Y1 = 11, Y2 = 10\<rparr>),
         (2, \<lparr>X1 = 11, X2 = 20, Y1 = 11, Y2 = 20\<rparr>)]"
    by simp
  define P where "P = [\<lparr>id1 = 1, id2 = 10, wrdens = 2 / 5, wr = 4, num_segs = 10,
                         wr_tot = total_writhe W, cand_id = 0\<rparr>,
                       \<lparr>id1 = - 1, id2 = 10, wrdens = 0, wr = 0, num_segs = 12,
                         wr_tot = total_writhe W, cand_id = Suc 0\<rparr>,
                       \<lparr>id1 = 11, id2 = 20, wrdens = 1 / 5, wr = 2, num_segs = 10,
                         wr_tot = total_writhe W, cand_id = 2\<rparr>]"
  have dp: "define_plecs W [A, B, C] 0 0 1 (2 * pi) = Some P"
    by (simp add: define_plecs_def rbo en w fac Let_def P_def)
  have tp: "trace_plectonemes W False 0 0 1 (2 * pi) [A, B, C] tb
              = Some (P, [[0], [1], [2]], [A, B, C], tb)"
    by (simp add: trace_plectonemes_def rb cb dp) (simp add: P_def tb_def)
  have first: "map_option
     (\<lambda>t. map (\<lambda>d. (plecdict_id1 d, plecdict_id2 d, plecdict_num_segs d)) (topol_plecs t))
     (find_plecs (\<lambda>bs i. bs ! i) W 0 0 1 False 2 (2 * pi) False False)
     = Some [(1, 10, 10), (- 1, 10, 12), (11, 20, 10)]"
    by (simp add: find_plecs_def find_plecs_stages_def sn fb2 tp)
       (simp add: P_def make_plecdict_def)
  have snv: "sign_normalise V = V"
    unfolding V_def by code_simp
  have thrv: "minwr_per_seg_of 1 1 (- (2 * pi)) = - 1"
    by (simp add: minwr_per_seg_of_def wr2dens_conv_fac_def)
  have second: "map_option (map (\<lambda>p. (p_x p, p_y p))) (find_pairs V (- 1))
     = Some [(0, 0), (0, 2), (0, 3), (0, 5), (1, 4), (1, 4)]"
    unfolding V_def by code_simp
  show ?thesis
    unfolding W_def [symmetric] V_def [symmetric] snv thrv
    using shape first second by - (intro conjI, assumption+)
qed

end
